theory Spec2Isabelle
  imports Main
begin

section \<open>Live Scribe: configuration\<close>

text \<open>
  The two front ends, \<^verbatim>\<open>scribe.py\<close> (Streamlit) and \<^verbatim>\<open>scribe_cli.py\<close> (terminal), share
  their worker and summarisation code and differ in three module constants. The
  constants are Python integers.
\<close>

record config =
  sample_rate :: int
  chunk_duration :: int
  summary_interval :: int

definition scribe_config :: config where
  "scribe_config = \<lparr>sample_rate = 16000, chunk_duration = 7, summary_interval = 25\<rparr>"

definition scribe_cli_config :: config where
  "scribe_cli_config = \<lparr>sample_rate = 16000, chunk_duration = 5, summary_interval = 15\<rparr>"

definition window_size :: "config \<Rightarrow> int" where
  "window_size cfg = sample_rate cfg * chunk_duration cfg"

section \<open>Python string operations used by the program\<close>

text \<open>
  A Python string is modelled by the bytes of its UTF-8 encoding. The operations
  below give on these bytes what Python gives on the characters, since every
  separator and marker of the program is ASCII. The one literal outside ASCII is
  the warning sign of the error text.
\<close>

definition nl :: string where
  "nl = [CHR 0x0A]"

definition warning_sign :: string where
  "warning_sign = [CHR 0xE2, CHR 0x9A, CHR 0xA0, CHR 0xEF, CHR 0xB8, CHR 0x8F]"

text \<open>\<^verbatim>\<open>s.startswith(p)\<close>.\<close>

fun startswith :: "string \<Rightarrow> string \<Rightarrow> bool" where
  "startswith [] s = True"
| "startswith (p # ps) [] = False"
| "startswith (p # ps) (c # cs) = (p = c \<and> startswith ps cs)"

text \<open>\<^verbatim>\<open>sub in s\<close>: \<open>sub\<close> occurs in \<open>s\<close> as a contiguous run.\<close>

fun contains :: "string \<Rightarrow> string \<Rightarrow> bool" where
  "contains sub [] = (sub = [])"
| "contains sub (c # cs) = (startswith sub (c # cs) \<or> contains sub cs)"

text \<open>
  The characters for which \<^verbatim>\<open>str.isspace\<close> holds, each as its UTF-8 bytes: U+0009 to
  U+000D, U+001C to U+0020, U+0085, U+00A0, U+1680, U+2000 to U+200A, U+2028,
  U+2029, U+202F, U+205F and U+3000.
\<close>

definition unicode_spaces :: "string list" where
  "unicode_spaces =
     [[CHR 0x09], [CHR 0x0A], [CHR 0x0B], [CHR 0x0C], [CHR 0x0D],
      [CHR 0x1C], [CHR 0x1D], [CHR 0x1E], [CHR 0x1F], [CHR 0x20],
      [CHR 0xC2, CHR 0x85], [CHR 0xC2, CHR 0xA0],
      [CHR 0xE1, CHR 0x9A, CHR 0x80],
      [CHR 0xE2, CHR 0x80, CHR 0x80], [CHR 0xE2, CHR 0x80, CHR 0x81],
      [CHR 0xE2, CHR 0x80, CHR 0x82], [CHR 0xE2, CHR 0x80, CHR 0x83],
      [CHR 0xE2, CHR 0x80, CHR 0x84], [CHR 0xE2, CHR 0x80, CHR 0x85],
      [CHR 0xE2, CHR 0x80, CHR 0x86], [CHR 0xE2, CHR 0x80, CHR 0x87],
      [CHR 0xE2, CHR 0x80, CHR 0x88], [CHR 0xE2, CHR 0x80, CHR 0x89],
      [CHR 0xE2, CHR 0x80, CHR 0x8A],
      [CHR 0xE2, CHR 0x80, CHR 0xA8], [CHR 0xE2, CHR 0x80, CHR 0xA9],
      [CHR 0xE2, CHR 0x80, CHR 0xAF], [CHR 0xE2, CHR 0x81, CHR 0x9F],
      [CHR 0xE3, CHR 0x80, CHR 0x80]]"

text \<open>The length of the first word of \<open>ws\<close> that \<open>s\<close> starts with, 0 if there is none.\<close>

definition space_at_head :: "string list \<Rightarrow> string \<Rightarrow> nat" where
  "space_at_head ws s =
     (case filter (\<lambda>w. startswith w s) ws of [] \<Rightarrow> 0 | w # _ \<Rightarrow> length w)"

text \<open>\<^verbatim>\<open>s.lstrip()\<close> when \<open>ws\<close> are the whitespace characters: they are removed from
  the front one by one.\<close>

function strip_left :: "string list \<Rightarrow> string \<Rightarrow> string" where
  "strip_left ws s =
     (if space_at_head ws s = 0 then s
      else strip_left ws (drop (space_at_head ws s) s))"
  by pat_completeness auto
termination
proof (relation "measure (\<lambda>(ws, s). length s)")
  show "wf (measure (\<lambda>(ws :: string list, s :: string). length s))"
    by simp
next
  fix ws :: "string list" and s :: string
  assume n: "space_at_head ws s \<noteq> 0"
  have "s \<noteq> []"
  proof
    assume e: "s = []"
    have "w = []" if "startswith w []" for w
      using that by (cases w) simp_all
    then have "\<forall>w\<in>set (filter (\<lambda>w. startswith w []) ws). w = []"
      by simp
    then have "space_at_head ws [] = 0"
      by (cases "filter (\<lambda>w. startswith w []) ws") (simp_all add: space_at_head_def)
    with n e show False by simp
  qed
  with n show "((ws, drop (space_at_head ws s) s), (ws, s)) \<in> measure (\<lambda>(ws, s). length s)"
    by simp
qed

text \<open>\<^verbatim>\<open>s.strip()\<close>: whitespace removed from the front, then from the back.\<close>

definition strip :: "string \<Rightarrow> string" where
  "strip s = rev (strip_left (map rev unicode_spaces) (rev (strip_left unicode_spaces s)))"

text \<open>A string of whitespace characters only, the empty string included.\<close>

definition whitespace_only :: "string \<Rightarrow> bool" where
  "whitespace_only s = (strip_left unicode_spaces s = [])"

text \<open>
  \<^verbatim>\<open>s.split(sep)\<close> for a non-empty separator: the pieces between the occurrences of
  \<open>sep\<close>, found from the left and not overlapping. \<open>cur\<close> is the piece being read.
  Python raises for an empty separator; the program calls \<^verbatim>\<open>split\<close> with one
  literal separator only.
\<close>

fun split_from :: "string \<Rightarrow> string \<Rightarrow> string \<Rightarrow> string list" where
  "split_from sep cur [] = [cur]"
| "split_from sep cur (c # cs) =
     (if startswith sep (c # cs)
      then cur # split_from sep [] (drop (length sep - 1) cs)
      else split_from sep (cur @ [c]) cs)"

definition split :: "string \<Rightarrow> string \<Rightarrow> string list" where
  "split s sep = split_from sep [] s"

text \<open>\<^verbatim>\<open>sep.join(xs)\<close>.\<close>

fun join :: "string \<Rightarrow> string list \<Rightarrow> string" where
  "join sep [] = []"
| "join sep [x] = x"
| "join sep (x # y # ys) = x @ sep @ join sep (y # ys)"

text \<open>
  \<^verbatim>\<open>xs[i:]\<close>: a negative start counts from the end, and a start outside the list is
  clamped, so the slice never raises.
\<close>

definition slice_from :: "'a list \<Rightarrow> int \<Rightarrow> 'a list" where
  "slice_from xs i =
     (let n = int (length xs);
          j = (if i < 0 then max 0 (n + i) else min i n)
      in drop (nat j) xs)"

section \<open>Program state\<close>

text \<open>
  The session variables of both front ends (\<^verbatim>\<open>st.session_state\<close> in \<^verbatim>\<open>scribe.py\<close>, the
  module globals in \<^verbatim>\<open>scribe_cli.py\<close>), together with the files of the working
  directory, which the save action writes. An audio window is a list of samples;
  the summary log is one string. \<open>stream\<close> is \<open>None\<close> while no device stream
  object exists, and otherwise tells whether the stream is running.
\<close>

datatype 'a file_content = Text string | Wav int "'a list"

record 'a app =
  recording :: bool
  transcript_text :: "string list"
  audio_buffer :: "'a list list"
  summary_log :: string
  last_summary_idx :: int
  stream :: "bool option"
  files :: "string \<rightharpoonup> 'a file_content"

definition initial :: "(string \<rightharpoonup> 'a file_content) \<Rightarrow> 'a app" where
  "initial fs =
     \<lparr>recording = False, transcript_text = [], audio_buffer = [], summary_log = [],
      last_summary_idx = 0, stream = None, files = fs\<rparr>"

text \<open>The boundary cursor does not point beyond the transcript log.\<close>

definition cursor_ok :: "'a app \<Rightarrow> bool" where
  "cursor_ok s = (last_summary_idx s \<le> int (length (transcript_text s)))"

text \<open>
  What one tick reads from outside the program: the clock, rendered
  \<^verbatim>\<open>%H:%M\<close>; the answer of \<^verbatim>\<open>ollama.chat\<close> to a prompt, either the message content or
  the text of the exception raised; whether opening the device stream succeeds.
\<close>

record ui_env =
  clock_hm :: string
  ollama_chat :: "string \<Rightarrow> string + string"
  stream_opens :: bool

section \<open>Summarisation\<close>

definition prompt :: "string \<Rightarrow> string" where
  \<open>prompt text_block = concat
     [nl, ''    [INST]'',
      nl, ''    You are a strategic advisor. Analyze this transcript segment.'',
      nl, ''    '',
      nl, ''    TASK:'',
      nl, ''    1. Detect the Tone.'',
      nl, ''    2. Find 2 hidden implications (what is being avoided or implied?).'',
      nl, ''    3. Formulate 1 sharp follow-up question.'',
      nl,
      nl, ''    REQUIRED OUTPUT FORMAT:'',
      nl, ''    Mood: [Tone]'',
      nl, ''    - [Implication 1]'',
      nl, ''    - [Implication 2]'',
      nl, ''    - Qn: [Your Strategic Question?]'',
      nl,
      nl, ''    RULES:'',
      nl, ''    - Keep points under 15 words.'',
      nl, ''    - No intro text.'',
      nl, ''    - The last point MUST start with "Qn:".'',
      nl,
      nl, ''    TRANSCRIPT SEGMENT:'',
      nl, ''    '', text_block,
      nl, ''    [/INST]'',
      nl, ''    '']\<close>

text \<open>\<^verbatim>\<open>generate_summary\<close>: the \<^verbatim>\<open>try\<close> block returns the content, the \<^verbatim>\<open>except\<close> block
  the error text. The console output is not modelled.\<close>

definition generate_summary :: "ui_env \<Rightarrow> string \<Rightarrow> string" where
  "generate_summary env text_block =
     (case ollama_chat env (prompt text_block) of
        Inr content \<Rightarrow> content
      | Inl e \<Rightarrow> warning_sign @ '' LLM Error: '' @ e)"

text \<open>The list comprehension's element: \<^verbatim>\<open>line.split("]** ")[-1]\<close>.\<close>

definition strip_timestamp :: "string \<Rightarrow> string" where
  "strip_timestamp line = last (split line '']** '')"

text \<open>
  The loop that empties the results queue. \<open>rq\<close> holds the items the loop takes
  off the queue during this tick, in order.
\<close>

fun process_results :: "(string \<times> 'a list) list \<Rightarrow> 'a app \<Rightarrow> 'a app" where
  "process_results [] s = s"
| "process_results ((text, raw_audio) # rq) s =
     process_results rq
       (s\<lparr>transcript_text := transcript_text s @ [text],
          audio_buffer := audio_buffer s @ [raw_audio]\<rparr>)"

text \<open>
  The summary check. Besides the new state it returns the arguments of the calls
  of \<^verbatim>\<open>generate_summary\<close> it made: none, or one.
\<close>

definition summary_check :: "int \<Rightarrow> ui_env \<Rightarrow> 'a app \<Rightarrow> 'a app \<times> string list" where
  "summary_check interval env s =
     (let current_len = int (length (transcript_text s)) in
      if current_len - last_summary_idx s \<ge> interval then
        (let recent_lines = slice_from (transcript_text s) (last_summary_idx s);
             clean_text = join '' '' (map strip_timestamp recent_lines);
             new_summary = generate_summary env clean_text;
             timestamp = clock_hm env
         in (s\<lparr>summary_log :=
                  summary_log s @ nl @ nl @ ''**Time '' @ timestamp @ ''**'' @ nl @ new_summary,
                last_summary_idx := current_len\<rparr>,
             [clean_text]))
      else (s, []))"

text \<open>The two actions every tick of either front end performs.\<close>

definition tick :: "int \<Rightarrow> ui_env \<Rightarrow> (string \<times> 'a list) list \<Rightarrow> 'a app \<Rightarrow> 'a app \<times> string list" where
  "tick interval env rq s = summary_check interval env (process_results rq s)"

section \<open>Saving\<close>

text \<open>
  The save button of \<^verbatim>\<open>scribe.py\<close>. \<^verbatim>\<open>open(name, "w")\<close> replaces the file; writing is
  taken to succeed. \<^verbatim>\<open>np.concatenate\<close>, which raises on an empty list, is reached only
  with a list that is not empty.
\<close>

definition save_button :: "'a app \<Rightarrow> 'a app" where
  "save_button s =
     (let s1 = (if audio_buffer s \<noteq> []
                then s\<lparr>files := (files s)(''meeting_audio.wav'' \<mapsto>
                        Wav (sample_rate scribe_config) (concat (audio_buffer s)))\<rparr>
                else s)
      in s1\<lparr>files := (files s1)(''meeting_transcript.txt'' \<mapsto>
               Text (join nl (transcript_text s1)))\<rparr>)"

text \<open>\<^verbatim>\<open>save_data\<close> of \<^verbatim>\<open>scribe_cli.py\<close>: each file is written only if its buffer is
  not empty.\<close>

definition save_data :: "'a app \<Rightarrow> 'a app" where
  "save_data s =
     (let s1 = (if audio_buffer s \<noteq> []
                then s\<lparr>files := (files s)(''meeting_audio.wav'' \<mapsto>
                        Wav (sample_rate scribe_cli_config) (concat (audio_buffer s)))\<rparr>
                else s)
      in if transcript_text s1 \<noteq> []
         then s1\<lparr>files := (files s1)(''meeting_transcript.txt'' \<mapsto>
                  Text (join nl (transcript_text s1)))\<rparr>
         else s1)"

section \<open>The front ends\<close>

text \<open>
  One run of the Streamlit script: the results queue is emptied, the summary check
  runs, and then the button the user clicked, if any, is handled. Rendering is not
  modelled.
\<close>

datatype click = NoClick | ToggleClick | SaveClick

definition toggle_recording :: "ui_env \<Rightarrow> 'a app \<Rightarrow> 'a app" where
  "toggle_recording env s =
     (let s1 = s\<lparr>recording := \<not> recording s\<rparr> in
      if recording s1 then
        (if stream_opens env then s1\<lparr>stream := Some True\<rparr>
         else s1\<lparr>recording := False\<rparr>)
      else (case stream s1 of
              Some _ \<Rightarrow> s1\<lparr>stream := Some False\<rparr>
            | None \<Rightarrow> s1))"

fun controls :: "ui_env \<Rightarrow> click \<Rightarrow> 'a app \<Rightarrow> 'a app" where
  "controls env NoClick s = s"
| "controls env ToggleClick s = toggle_recording env s"
| "controls env SaveClick s = save_button s"

definition scribe_rerun ::
  "ui_env \<Rightarrow> click \<Rightarrow> (string \<times> 'a list) list \<Rightarrow> 'a app \<Rightarrow> 'a app \<times> string list" where
  "scribe_rerun env btn rq s =
     (let (s1, calls) = tick (summary_interval scribe_config) env rq s
      in (controls env btn s1, calls))"

text \<open>One iteration of the \<^verbatim>\<open>while recording\<close> loop of \<^verbatim>\<open>scribe_cli.py\<close>.\<close>

definition scribe_cli_iteration ::
  "ui_env \<Rightarrow> (string \<times> 'a list) list \<Rightarrow> 'a app \<Rightarrow> 'a app \<times> string list" where
  "scribe_cli_iteration env rq s = tick (summary_interval scribe_cli_config) env rq s"

text \<open>
  The loop of \<^verbatim>\<open>main\<close> from the moment the stream has started: one iteration per
  element of the list, then the keyboard interrupt, taken between two iterations,
  and the \<^verbatim>\<open>finally\<close> block.
\<close>

fun main_loop :: "(ui_env \<times> (string \<times> 'a list) list) list \<Rightarrow> 'a app \<Rightarrow> 'a app" where
  "main_loop [] s = s\<lparr>recording := False\<rparr>"
| "main_loop ((env, rq) # rest) s = main_loop rest (fst (scribe_cli_iteration env rq s))"

definition main_listen :: "(ui_env \<times> (string \<times> 'a list) list) list \<Rightarrow> 'a app \<Rightarrow> 'a app" where
  "main_listen ticks s =
     (let s1 = main_loop ticks (s\<lparr>stream := Some True, recording := True\<rparr>)
      in save_data (s1\<lparr>stream := Some False\<rparr>))"

text \<open>A session of the Streamlit front end: the script runs once per element.\<close>

fun scribe_session ::
  "(ui_env \<times> click \<times> (string \<times> 'a list) list) list \<Rightarrow> 'a app \<Rightarrow> 'a app" where
  "scribe_session [] s = s"
| "scribe_session ((env, btn, rq) # rest) s =
     scribe_session rest (fst (scribe_rerun env btn rq s))"

section \<open>Batching and transcription\<close>

text \<open>
  What the worker thread reads from outside: the answer of
  \<^verbatim>\<open>mlx_whisper.transcribe\<close> to the window of its \<open>k\<close>-th call, either the text of the
  result or the text of the exception raised inside the \<^verbatim>\<open>try\<close> block, and the clock
  at that call, rendered \<^verbatim>\<open>%H:%M:%S\<close>. Writing the temporary waveform file, which
  happens before the \<^verbatim>\<open>try\<close> block, is taken to succeed.
\<close>

record 'a worker_env =
  whisper :: "nat \<Rightarrow> 'a list \<Rightarrow> string + string"
  clock_hms :: "nat \<Rightarrow> string"

text \<open>
  The inner \<^verbatim>\<open>while\<close> loop on the driver buffers that are or will be in the audio
  queue, each already flattened. The length test comes first, then one buffer is
  taken and appended whole. With no buffer left the loop polls for ever:
  \<open>Starved\<close> carries the samples gathered so far. Otherwise the loop ends with a
  window and the buffers it did not read.
\<close>

datatype 'a collect = Starved "'a list" | Collected "'a list" "'a list list"

fun inner_loop :: "int \<Rightarrow> 'a list \<Rightarrow> 'a list list \<Rightarrow> 'a collect" where
  "inner_loop n audio_chunk [] =
     (if int (length audio_chunk) < n then Starved audio_chunk
      else Collected audio_chunk [])"
| "inner_loop n audio_chunk (data # q) =
     (if int (length audio_chunk) < n then inner_loop n (audio_chunk @ data) q
      else Collected audio_chunk (data # q))"

text \<open>The \<^verbatim>\<open>try\<close> block: what the \<open>k\<close>-th call puts on the results queue.\<close>

definition transcribe_window :: "'a worker_env \<Rightarrow> nat \<Rightarrow> 'a list \<Rightarrow> (string \<times> 'a list) list" where
  "transcribe_window env k np_audio =
     (case whisper env k np_audio of
        Inr result \<Rightarrow>
          (let text = strip result in
           if text \<noteq> [] then
             (let timestamp = clock_hms env k;
                  formatted = ''**['' @ timestamp @ '']** '' @ text
              in [(formatted, np_audio)])
           else [])
      | Inl e \<Rightarrow> [])"

text \<open>
  The worker thread, run on the buffers \<open>q\<close> until it polls an empty queue for
  ever: the windows it passed to the transcription service, in order, what it put
  on the results queue, and the samples of the unfinished window. Every round of
  the outer loop starts from an empty \<open>audio_chunk\<close>. \<open>k\<close> counts the
  transcription calls made before. With a window size that is not positive the
  thread never reads the queue and never stops transcribing empty windows: the
  result is \<open>None\<close>.
\<close>

record 'a worker_trace =
  transcribed :: "'a list list"
  enqueued :: "(string \<times> 'a list) list"
  unfinished :: "'a list"

function processing_thread ::
  "config \<Rightarrow> 'a worker_env \<Rightarrow> nat \<Rightarrow> 'a list list \<Rightarrow> 'a worker_trace option" where
  "processing_thread cfg env k q =
     (if window_size cfg \<le> 0 then None
      else case inner_loop (window_size cfg) [] q of
        Starved audio_chunk \<Rightarrow>
          Some \<lparr>transcribed = [], enqueued = [], unfinished = audio_chunk\<rparr>
      | Collected np_audio rest \<Rightarrow>
          (case processing_thread cfg env (Suc k) rest of
             None \<Rightarrow> None
           | Some t \<Rightarrow>
               Some (t\<lparr>transcribed := np_audio # transcribed t,
                       enqueued := transcribe_window env k np_audio @ enqueued t\<rparr>)))"
  by pat_completeness auto
termination
proof (relation "measure (\<lambda>(cfg, env, k, q). length q)")
  show "wf (measure (\<lambda>(cfg :: config, env :: 'a worker_env, k :: nat, q :: 'a list list). length q))"
    by simp
next
  fix cfg :: config and env :: "'a worker_env" and k :: nat
    and q rest :: "'a list list" and np_audio :: "'a list"
  assume pos: "\<not> window_size cfg \<le> 0"
    and col: "inner_loop (window_size cfg) [] q = Collected np_audio rest"
  have shorter: "inner_loop n c b = Collected w r \<Longrightarrow> int (length c) < n \<Longrightarrow> length r < length b"
    for n and c w :: "'a list" and b r
  proof (induction b arbitrary: c)
    case Nil
    then show ?case by simp
  next
    case (Cons d b)
    show ?case
    proof (cases "int (length (c @ d)) < n")
      case True
      with Cons show ?thesis by fastforce
    next
      case False
      with Cons.prems show ?thesis by (cases b) (auto split: if_splits)
    qed
  qed
  from shorter [OF col] pos
  show "((cfg, env, Suc k, rest), (cfg, env, k, q)) \<in> measure (\<lambda>(cfg, env, k, q). length q)"
    by simp
qed

text \<open>
  What calls number \<open>k\<close>, \<open>k + 1\<close>, ... put on the results queue when they are made
  for the windows \<open>ws\<close>, one call for each window, in order.
\<close>

definition calls_from :: "'a worker_env \<Rightarrow> nat \<Rightarrow> 'a list list \<Rightarrow> (string \<times> 'a list) list" where
  "calls_from env k ws = concat (map2 (transcribe_window env) [k..<k + length ws] ws)"

section \<open>Choosing the input device\<close>

record device =
  name :: string
  max_input_channels :: int
  index :: int

text \<open>
  The \<^verbatim>\<open>for i, name in enumerate(...)\<close> loop with its \<^verbatim>\<open>break\<close>. \<open>default_idx\<close> is the
  value the variable has before the loop, \<open>i\<close> the position of the next name.
\<close>

fun blackhole_idx :: "int \<Rightarrow> int \<Rightarrow> string list \<Rightarrow> int" where
  "blackhole_idx default_idx i [] = default_idx"
| "blackhole_idx default_idx i (nm # names) =
     (if contains ''BlackHole'' nm then i else blackhole_idx default_idx (i + 1) names)"

text \<open>\<^verbatim>\<open>xs[i]\<close>: a negative index counts from the end; \<open>None\<close> is the IndexError.\<close>

definition item :: "'a list \<Rightarrow> int \<Rightarrow> 'a option" where
  "item xs i =
     (let n = int (length xs); j = (if i < 0 then n + i else i)
      in if 0 \<le> j \<and> j < n then Some (xs ! nat j) else None)"

text \<open>The sidebar of \<^verbatim>\<open>scribe.py\<close>. \<^verbatim>\<open>st.selectbox\<close> returns what the user picked, and
  the option at \<open>index\<close> while the user has picked nothing.\<close>

definition input_names :: "device list \<Rightarrow> string list" where
  "input_names device_list = map name (filter (\<lambda>d. max_input_channels d > 0) device_list)"

definition selectbox :: "string list \<Rightarrow> int \<Rightarrow> string option \<Rightarrow> string option" where
  "selectbox options idx picked =
     (case picked of Some v \<Rightarrow> Some v | None \<Rightarrow> item options idx)"

definition selected_device :: "device list \<Rightarrow> string option \<Rightarrow> string option" where
  "selected_device device_list picked =
     (let names = input_names device_list;
          default_idx = blackhole_idx 0 0 names
      in selectbox names default_idx picked)"

text \<open>
  \<^verbatim>\<open>select_input_device\<close> of \<^verbatim>\<open>scribe_cli.py\<close>. \<open>choice\<close> is the line the user typed,
  empty when the user only pressed Enter. Python's \<^verbatim>\<open>int\<close> on a string is the
  parameter \<open>int_of\<close> (\<open>None\<close> is the ValueError); \<open>fallback\<close> is
  \<^verbatim>\<open>sd.default.device['input']\<close>.
\<close>

datatype selection = SysExit int | Selected int

definition select_input_device ::
  "(string \<Rightarrow> int option) \<Rightarrow> int \<Rightarrow> string \<Rightarrow> device list \<Rightarrow> selection" where
  "select_input_device int_of fallback choice device_list =
     (let input_devices = filter (\<lambda>d. max_input_channels d > 0) device_list in
      if input_devices = [] then SysExit 1
      else
        (let default_idx = blackhole_idx (- 1) 0 (map name input_devices);
             dev_idx =
               (if choice = [] \<and> default_idx \<noteq> - 1 then Some default_idx
                else if choice \<noteq> [] then int_of choice
                else Some (if default_idx \<noteq> - 1 then default_idx else 0))
         in case dev_idx of
              None \<Rightarrow> Selected fallback
            | Some i \<Rightarrow>
                (case item input_devices i of
                   None \<Rightarrow> Selected fallback
                 | Some d \<Rightarrow> Selected (index d))))"

section \<open>Concrete environments\<close>

definition chat_ok :: "string \<Rightarrow> string + string" where
  "chat_ok p = Inr ''Mood: calm''"

definition chat_down :: "string \<Rightarrow> string + string" where
  "chat_down p = Inl ''connection refused''"

definition env_ok :: ui_env where
  "env_ok = \<lparr>clock_hm = ''12:00'', ollama_chat = chat_ok, stream_opens = True\<rparr>"

definition env_down :: ui_env where
  "env_down = \<lparr>clock_hm = ''12:00'', ollama_chat = chat_down, stream_opens = True\<rparr>"

definition demo_config :: config where
  "demo_config = \<lparr>sample_rate = 2, chunk_duration = 2, summary_interval = 2\<rparr>"

definition whisper_demo :: "nat \<Rightarrow> int list \<Rightarrow> string + string" where
  "whisper_demo k w =
     (if k = 0 then Inr '' hello '' else if k = 1 then Inl ''model not loaded'' else Inr ''  '')"

definition clock_demo :: "nat \<Rightarrow> string" where
  "clock_demo k = ''00:00:01''"

definition worker_demo :: "int worker_env" where
  "worker_demo = \<lparr>whisper = whisper_demo, clock_hms = clock_demo\<rparr>"

definition demo_devices :: "device list" where
  "demo_devices =
     [\<lparr>name = ''MacBook Pro Microphone'', max_input_channels = 1, index = 0\<rparr>,
      \<lparr>name = ''MacBook Pro Speakers'', max_input_channels = 0, index = 1\<rparr>,
      \<lparr>name = ''BlackHole 2ch'', max_input_channels = 2, index = 2\<rparr>,
      \<lparr>name = ''BlackHole 16ch'', max_input_channels = 16, index = 3\<rparr>]"

definition int_of_digit :: "string \<Rightarrow> int option" where
  "int_of_digit s = (if s = ''0'' then Some 0 else if s = ''1'' then Some 1 else None)"

text \<open>The text the summary check passes to \<^verbatim>\<open>generate_summary\<close> when the log is
  \<open>lines\<close> and the cursor \<open>idx\<close>.\<close>

definition clean_text :: "string list \<Rightarrow> int \<Rightarrow> string" where
  "clean_text lines idx = join '' '' (map strip_timestamp (slice_from lines idx))"

text \<open>What a failed summarisation appends to the summary log: the heading and the
  error text.\<close>

definition error_entry :: "ui_env \<Rightarrow> string \<Rightarrow> string" where
  "error_entry env e =
     nl @ nl @ ''**Time '' @ clock_hm env @ ''**'' @ nl @ warning_sign @ '' LLM Error: '' @ e"

text \<open>A working directory that already holds a transcript file.\<close>

definition old_files :: "string \<rightharpoonup> int file_content" where
  "old_files = [''meeting_transcript.txt'' \<mapsto> Text ''old notes'']"

definition listening :: "int app" where
  "listening =
     \<lparr>recording = True, transcript_text = [''**[00:00:01]** hello''],
      audio_buffer = [[1, 2, 3, 4, 5]], summary_log = [], last_summary_idx = 0,
      stream = Some True, files = old_files\<rparr>"

text \<open>
  The timestamp-stripped text of a transcript line in the words of the
  specification, where a line is \<^verbatim>\<open>**[HH:MM:SS]** text\<close>: the line without that
  prefix. It is compared below with \<open>strip_timestamp\<close>, which is what the program
  computes.
\<close>

definition without_timestamp_prefix :: "string \<Rightarrow> string" where
  "without_timestamp_prefix line = drop (length ''**[HH:MM:SS]** '') line"

text \<open>The two lines of the example, as they come off the results queue.\<close>

definition hello_world :: "(string \<times> int list) list" where
  "hello_world = [(''**[00:00:01]** hello'', [1, 2, 3, 4]), (''**[00:00:02]** world'', [5, 6, 7, 8])]"

text \<open>A transcription whose text holds the characters that end a timestamp.\<close>

definition whisper_marker :: "nat \<Rightarrow> int list \<Rightarrow> string + string" where
  "whisper_marker k w = Inr ''a]** b''"

definition worker_marker :: "int worker_env" where
  "worker_marker = \<lparr>whisper = whisper_marker, clock_hms = clock_demo\<rparr>"



definition no_files :: "string \<rightharpoonup> int file_content" where
  "no_files = Map.empty"

section \<open>Facts about the string operations\<close>

declare strip_left.simps [simp del]

lemmas strip_eval = strip_def strip_left.simps space_at_head_def unicode_spaces_def

lemma startswith_iff: "startswith p s \<longleftrightarrow> (\<exists>t. s = p @ t)"
  by (induction p s rule: startswith.induct) auto

lemma space_at_head_Nil: "space_at_head ws [] = 0"
proof -
  have "w = []" if "startswith w []" for w
    using that by (cases w) simp_all
  then have "\<forall>w\<in>set (filter (\<lambda>w. startswith w []) ws). w = []"
    by simp
  then show ?thesis
    by (cases "filter (\<lambda>w. startswith w []) ws") (simp_all add: space_at_head_def)
qed

lemma strip_left_Nil: "strip_left ws [] = []"
  by (simp add: strip_left.simps space_at_head_Nil)

lemma space_at_head_word:
  assumes "space_at_head ws s \<noteq> 0"
  shows "take (space_at_head ws s) s \<in> set ws \<and> space_at_head ws s \<le> length s"
proof (cases "filter (\<lambda>w. startswith w s) ws")
  case Nil
  with assms show ?thesis by (simp add: space_at_head_def)
next
  case (Cons w rest)
  then have "w \<in> set (filter (\<lambda>w. startswith w s) ws)" by simp
  then have w: "w \<in> set ws" "startswith w s" by simp_all
  then obtain t where "s = w @ t" by (auto simp: startswith_iff)
  moreover from Cons have "space_at_head ws s = length w" by (simp add: space_at_head_def)
  ultimately show ?thesis using w by simp
qed

lemma space_at_head_found:
  assumes "[] \<notin> set ws" "w \<in> set ws"
  shows "space_at_head ws (w @ t) \<noteq> 0"
proof (cases "filter (\<lambda>v. startswith v (w @ t)) ws")
  case Nil
  from assms(2) have "w \<in> set (filter (\<lambda>v. startswith v (w @ t)) ws)"
    by (simp add: startswith_iff)
  with Nil show ?thesis by simp
next
  case (Cons v rest)
  then have "v \<in> set (filter (\<lambda>v. startswith v (w @ t)) ws)" by simp
  then have "v \<in> set ws" by simp
  with assms(1) have "v \<noteq> []" by auto
  with Cons show ?thesis by (simp add: space_at_head_def)
qed

lemma strip_left_split:
  "\<exists>cs. set cs \<subseteq> set ws \<and> s = concat cs @ strip_left ws s"
proof (induction ws s rule: strip_left.induct)
  case (1 ws s)
  show ?case
  proof (cases "space_at_head ws s = 0")
    case True
    then have "set [] \<subseteq> set ws \<and> s = concat [] @ strip_left ws s"
      by (simp add: strip_left.simps)
    then show ?thesis by blast
  next
    case False
    let ?n = "space_at_head ws s"
    from "1.IH" [OF False] obtain cs where
      cs: "set cs \<subseteq> set ws" "drop ?n s = concat cs @ strip_left ws (drop ?n s)" by blast
    from False have sl: "strip_left ws s = strip_left ws (drop ?n s)"
      by (subst strip_left.simps) simp
    from space_at_head_word [OF False] have "take ?n s \<in> set ws" by simp
    moreover have "s = take ?n s @ drop ?n s" by simp
    ultimately have "set (take ?n s # cs) \<subseteq> set ws
        \<and> s = concat (take ?n s # cs) @ strip_left ws s"
      using cs sl by (metis append.assoc concat.simps(2) insert_subset list.simps(15))
    then show ?thesis by blast
  qed
qed

lemma strip_left_fixed: "space_at_head ws (strip_left ws s) = 0"
proof (induction ws s rule: strip_left.induct)
  case (1 ws s)
  show ?case
  proof (cases "space_at_head ws s = 0")
    case True
    then show ?thesis by (simp add: strip_left.simps)
  next
    case False
    from False have "strip_left ws s = strip_left ws (drop (space_at_head ws s) s)"
      by (subst strip_left.simps) simp
    with "1.IH" [OF False] show ?thesis by simp
  qed
qed

lemma concat_words_head:
  assumes "[] \<notin> set ws" "set cs \<subseteq> set ws" "concat cs \<noteq> []"
  shows "space_at_head ws (concat cs) \<noteq> 0"
proof (cases cs)
  case Nil
  with assms(3) show ?thesis by simp
next
  case (Cons w cs')
  with assms(2) have "w \<in> set ws" by simp
  from space_at_head_found [OF assms(1) this, of "concat cs'"] Cons
  show ?thesis by simp
qed


lemma unicode_spaces_nonempty: "[] \<notin> set unicode_spaces"
  by (simp add: unicode_spaces_def)

lemma rev_spaces_nonempty: "[] \<notin> set (map rev unicode_spaces)"
  using unicode_spaces_nonempty by auto

lemma strip_left_empty_words:
  assumes "strip_left ws s = []"
  shows "\<exists>cs. set cs \<subseteq> set ws \<and> s = concat cs"
  using strip_left_split [of ws s] assms by simp

lemma words_strip_left_empty:
  assumes "[] \<notin> set ws" "set cs \<subseteq> set ws" "s = concat cs @ strip_left ws s"
    and "\<exists>ds. set ds \<subseteq> set ws \<and> strip_left ws s = concat ds"
  shows "strip_left ws s = []"
proof (rule ccontr)
  assume ne: "strip_left ws s \<noteq> []"
  from assms(4) obtain ds where ds: "set ds \<subseteq> set ws" "strip_left ws s = concat ds" by blast
  with ne have "concat ds \<noteq> []" by simp
  from concat_words_head [OF assms(1) ds(1) this] ds(2) strip_left_fixed [of ws s]
  show False by simp
qed

lemma strip_empty_iff: "strip r = [] \<longleftrightarrow> whitespace_only r"
proof
  assume "whitespace_only r"
  then show "strip r = []"
    by (simp add: whitespace_only_def strip_def strip_left_Nil)
next
  assume "strip r = []"
  then have "strip_left (map rev unicode_spaces) (rev (strip_left unicode_spaces r)) = []"
    by (simp add: strip_def)
  from strip_left_empty_words [OF this] obtain cs where
    cs: "set cs \<subseteq> set (map rev unicode_spaces)" "rev (strip_left unicode_spaces r) = concat cs"
    by blast
  have "strip_left unicode_spaces r = rev (concat cs)"
    using cs(2) by (metis rev_rev_ident)
  also have "\<dots> = concat (map rev (rev cs))"
    by (simp add: rev_concat)
  finally have e: "strip_left unicode_spaces r = concat (map rev (rev cs))" .
  have "set (map rev (rev cs)) \<subseteq> set unicode_spaces"
    using cs(1) by auto
  with e have ex: "\<exists>ds. set ds \<subseteq> set unicode_spaces \<and> strip_left unicode_spaces r = concat ds"
    by blast
  from strip_left_split [of unicode_spaces r] obtain ps where
    "set ps \<subseteq> set unicode_spaces" "r = concat ps @ strip_left unicode_spaces r" by blast
  from words_strip_left_empty [OF unicode_spaces_nonempty this ex]
  show "whitespace_only r" by (simp add: whitespace_only_def)
qed

lemma startswith_append:
  "startswith v (w @ t) \<Longrightarrow> startswith v w \<or> startswith w v"
proof (induction v w rule: startswith.induct)
  case (1 s)
  then show ?case by simp
next
  case (2 p ps)
  then show ?case by simp
next
  case (3 p ps c cs)
  then show ?case by simp
qed

lemma unicode_spaces_prefix_free:
  "\<forall>v\<in>set unicode_spaces. \<forall>w\<in>set unicode_spaces. startswith v w \<longrightarrow> v = w"
  by (simp add: unicode_spaces_def)

lemma space_at_head_unicode:
  assumes "w \<in> set unicode_spaces"
  shows "space_at_head unicode_spaces (w @ t) = length w"
proof (cases "filter (\<lambda>v. startswith v (w @ t)) unicode_spaces")
  case Nil
  from assms have "w \<in> set (filter (\<lambda>v. startswith v (w @ t)) unicode_spaces)"
    by (simp add: startswith_iff)
  with Nil show ?thesis by simp
next
  case (Cons v rest)
  then have "v \<in> set (filter (\<lambda>v. startswith v (w @ t)) unicode_spaces)" by simp
  then have v: "v \<in> set unicode_spaces" "startswith v (w @ t)" by simp_all
  from startswith_append [OF v(2)] v(1) assms unicode_spaces_prefix_free
  have "v = w" by blast
  with Cons show ?thesis by (simp add: space_at_head_def)
qed

lemma whitespace_only_concat:
  assumes "set cs \<subseteq> set unicode_spaces"
  shows "strip_left unicode_spaces (concat cs @ t) = strip_left unicode_spaces t"
  using assms
proof (induction cs)
  case Nil
  then show ?case by simp
next
  case (Cons w cs)
  then have w: "w \<in> set unicode_spaces" by simp
  with unicode_spaces_nonempty have "w \<noteq> []" by auto
  with space_at_head_unicode [OF w, of "concat cs @ t"]
  have "strip_left unicode_spaces (w @ concat cs @ t) = strip_left unicode_spaces (concat cs @ t)"
    by (subst strip_left.simps) simp
  with Cons show ?case by simp
qed

lemma whitespace_only_iff:
  "whitespace_only r \<longleftrightarrow> (\<exists>cs. set cs \<subseteq> set unicode_spaces \<and> r = concat cs)"
proof
  assume "whitespace_only r"
  then show "\<exists>cs. set cs \<subseteq> set unicode_spaces \<and> r = concat cs"
    using strip_left_empty_words by (simp add: whitespace_only_def)
next
  assume "\<exists>cs. set cs \<subseteq> set unicode_spaces \<and> r = concat cs"
  then obtain cs where "set cs \<subseteq> set unicode_spaces" "r = concat cs" by blast
  with whitespace_only_concat [of cs "[]"] show "whitespace_only r"
    by (simp add: whitespace_only_def strip_left_Nil)
qed

section \<open>The boundary cursor\<close>

lemma process_results_transcript:
  "transcript_text (process_results rq s) = transcript_text s @ map fst rq"
  by (induction rq s rule: process_results.induct) simp_all

lemma process_results_audio:
  "audio_buffer (process_results rq s) = audio_buffer s @ map snd rq"
  by (induction rq s rule: process_results.induct) simp_all

lemma process_results_frame:
  "last_summary_idx (process_results rq s) = last_summary_idx s"
  "summary_log (process_results rq s) = summary_log s"
  "recording (process_results rq s) = recording s"
  "stream (process_results rq s) = stream s"
  "files (process_results rq s) = files s"
  by (induction rq s rule: process_results.induct) simp_all

lemma summary_check_frame:
  "transcript_text (fst (summary_check i env s)) = transcript_text s"
  "audio_buffer (fst (summary_check i env s)) = audio_buffer s"
  "recording (fst (summary_check i env s)) = recording s"
  "stream (fst (summary_check i env s)) = stream s"
  "files (fst (summary_check i env s)) = files s"
  by (simp_all add: summary_check_def Let_def)

lemma summary_check_idx:
  "last_summary_idx (fst (summary_check i env s)) =
     (if int (length (transcript_text s)) - last_summary_idx s \<ge> i
      then int (length (transcript_text s)) else last_summary_idx s)"
  by (simp add: summary_check_def Let_def)

lemma tick_transcript:
  "transcript_text (fst (tick i env rq s)) = transcript_text s @ map fst rq"
  by (simp add: tick_def summary_check_frame process_results_transcript)

lemma tick_idx:
  "last_summary_idx (fst (tick i env rq s)) =
     (if int (length (transcript_text s) + length rq) - last_summary_idx s \<ge> i
      then int (length (transcript_text s) + length rq) else last_summary_idx s)"
  by (simp add: tick_def summary_check_idx process_results_transcript process_results_frame)

lemma controls_frame:
  "transcript_text (controls env btn s) = transcript_text s"
  "audio_buffer (controls env btn s) = audio_buffer s"
  "summary_log (controls env btn s) = summary_log s"
  "last_summary_idx (controls env btn s) = last_summary_idx s"
  by (cases btn; simp add: toggle_recording_def save_button_def Let_def split: option.splits)+

lemma scribe_rerun_fst:
  "fst (scribe_rerun env btn rq s) =
     controls env btn (fst (tick (summary_interval scribe_config) env rq s))"
  by (simp add: scribe_rerun_def split: prod.splits)

lemma tick_cursor_ok:
  assumes "cursor_ok s"
  shows "cursor_ok (fst (tick i env rq s))"
  using assms by (simp add: cursor_ok_def tick_idx tick_transcript)

lemma tick_cursor_mono:
  assumes "cursor_ok s"
  shows "last_summary_idx s \<le> last_summary_idx (fst (tick i env rq s))"
  using assms by (simp add: cursor_ok_def tick_idx)

lemma scribe_rerun_cursor_ok:
  "cursor_ok s \<Longrightarrow> cursor_ok (fst (scribe_rerun env btn rq s))"
  using tick_cursor_ok [of s "summary_interval scribe_config" env rq]
  by (simp add: scribe_rerun_fst cursor_ok_def controls_frame)

lemma scribe_session_cursor_ok:
  "cursor_ok s \<Longrightarrow> cursor_ok (scribe_session ticks s)"
  by (induction ticks s rule: scribe_session.induct) (simp_all add: scribe_rerun_cursor_ok)

lemma main_loop_cursor_ok:
  "cursor_ok s \<Longrightarrow> cursor_ok (main_loop ticks s)"
proof (induction ticks s rule: main_loop.induct)
  case (1 s)
  then show ?case by (simp add: cursor_ok_def)
next
  case (2 env rq rest s)
  then show ?case by (simp add: scribe_cli_iteration_def tick_cursor_ok)
qed

lemma initial_cursor_ok: "cursor_ok (initial fs)"
  by (simp add: cursor_ok_def initial_def)

text \<open>
  C1. If the boundary cursor is at most the length of the transcript log before a
  tick, then after a run of the Streamlit script, and after an iteration of the
  terminal loop, it is still at most the length of the log and not smaller than
  before; if the check fired (the log, with the lines that arrived in this tick, is
  at least the interval ahead of the cursor) the cursor equals the length of the
  log at the check, which is the old length plus the number of arrived lines, and
  otherwise it is unchanged. Hence the bound holds after every sequence of ticks
  from the initial state, in both front ends.
\<close>

theorem boundary_cursor_invariant:
  assumes "cursor_ok s"
  shows
    "(let s' = fst (scribe_rerun env btn rq s);
          len = int (length (transcript_text s) + length rq)
      in cursor_ok s' \<and> last_summary_idx s \<le> last_summary_idx s'
         \<and> int (length (transcript_text s')) = len
         \<and> last_summary_idx s' =
             (if len - last_summary_idx s \<ge> 25 then len else last_summary_idx s))
     \<and> (let s' = fst (scribe_cli_iteration env rq s);
          len = int (length (transcript_text s) + length rq)
      in cursor_ok s' \<and> last_summary_idx s \<le> last_summary_idx s'
         \<and> int (length (transcript_text s')) = len
         \<and> last_summary_idx s' =
             (if len - last_summary_idx s \<ge> 15 then len else last_summary_idx s))
     \<and> cursor_ok (scribe_session runs (initial fs))
     \<and> cursor_ok (main_loop iterations (initial fs))"
proof -
  have a: "cursor_ok (fst (scribe_rerun env btn rq s))"
    using assms by (rule scribe_rerun_cursor_ok)
  have b: "last_summary_idx s \<le> last_summary_idx (fst (scribe_rerun env btn rq s))"
    using tick_cursor_mono [OF assms] by (simp add: scribe_rerun_fst controls_frame)
  have c: "cursor_ok (fst (scribe_cli_iteration env rq s))"
    using assms by (simp add: scribe_cli_iteration_def tick_cursor_ok)
  have d: "last_summary_idx s \<le> last_summary_idx (fst (scribe_cli_iteration env rq s))"
    using tick_cursor_mono [OF assms] by (simp add: scribe_cli_iteration_def)
  have e: "cursor_ok (scribe_session runs (initial fs))"
    by (rule scribe_session_cursor_ok [OF initial_cursor_ok])
  have f: "cursor_ok (main_loop iterations (initial fs))"
    by (rule main_loop_cursor_ok [OF initial_cursor_ok])
  show ?thesis
    using a b c d e f
    by (simp add: Let_def scribe_rerun_fst controls_frame scribe_cli_iteration_def
        tick_idx tick_transcript scribe_config_def scribe_cli_config_def)
qed

theorem boundary_cursor_invariant_witness:
  "cursor_ok (initial Map.empty :: int app)
   \<and> last_summary_idx
       (fst (scribe_cli_iteration env_ok (replicate 15 (''**[00:00:01]** hello'', [0]))
          (initial Map.empty :: int app))) = 15
   \<and> last_summary_idx
       (fst (scribe_rerun env_ok NoClick (replicate 15 (''**[00:00:01]** hello'', [0]))
          (initial Map.empty :: int app))) = 0"
proof -
  have h: "cursor_ok (initial Map.empty :: int app)"
    by (rule initial_cursor_ok)
  from boundary_cursor_invariant [OF h, where env = env_ok and btn = NoClick
      and rq = "replicate 15 (''**[00:00:01]** hello'', [0])"
      and runs = "[]" and iterations = "[]"
      and fs = "Map.empty :: string \<rightharpoonup> int file_content"]
  show ?thesis
    using h by (simp add: Let_def initial_def)
qed

section \<open>The worker thread\<close>


declare processing_thread.simps [simp del]

lemma inner_loop_full_chunk:
  "\<not> int (length c) < n \<Longrightarrow> inner_loop n c b = Collected c b"
  by (cases b) simp_all

lemma inner_loop_collected:
  "inner_loop n c b = Collected w r \<Longrightarrow> int (length c) < n \<Longrightarrow>
   \<exists>bs d. b = bs @ d # r \<and> w = c @ concat bs @ d \<and> int (length (c @ concat bs)) < n
     \<and> n \<le> int (length w)"
proof (induction b arbitrary: c)
  case Nil
  then show ?case by simp
next
  case (Cons x b)
  show ?case
  proof (cases "int (length (c @ x)) < n")
    case True
    from Cons.prems have "inner_loop n (c @ x) b = Collected w r" by simp
    from Cons.IH [OF this True] obtain bs d where
      "b = bs @ d # r" "w = (c @ x) @ concat bs @ d"
      "int (length ((c @ x) @ concat bs)) < n" "n \<le> int (length w)"
      by blast
    then have "x # b = (x # bs) @ d # r \<and> w = c @ concat (x # bs) @ d
       \<and> int (length (c @ concat (x # bs))) < n \<and> n \<le> int (length w)"
      by simp
    then show ?thesis by blast
  next
    case False
    with Cons.prems have "w = c @ x" "r = b"
      by (simp_all add: inner_loop_full_chunk)
    with False Cons.prems(2) have "x # b = [] @ x # r \<and> w = c @ concat [] @ x
       \<and> int (length (c @ concat [])) < n \<and> n \<le> int (length w)"
      by simp
    then show ?thesis by blast
  qed
qed

lemma inner_loop_starved:
  "inner_loop n c b = Starved u \<Longrightarrow> u = c @ concat b \<and> int (length u) < n"
proof (induction b arbitrary: c)
  case Nil
  then show ?case by (simp split: if_splits)
next
  case (Cons x b)
  from Cons.prems have "inner_loop n (c @ x) b = Starved u"
    by (simp split: if_splits)
  from Cons.IH [OF this] show ?case by auto
qed

lemma processing_thread_total:
  "0 < window_size cfg \<Longrightarrow> \<exists>t. processing_thread cfg env k q = Some t"
proof (induction cfg env k q rule: processing_thread.induct)
  case (1 cfg env k q)
  show ?case
  proof (cases "inner_loop (window_size cfg) [] q")
    case (Starved u)
    with "1.prems" show ?thesis by (simp add: processing_thread.simps)
  next
    case (Collected w r)
    with 1 obtain t where "processing_thread cfg env (Suc k) r = Some t" by fastforce
    with Collected "1.prems" show ?thesis by (simp add: processing_thread.simps)
  qed
qed

lemma processing_thread_step:
  assumes "0 < window_size cfg" "inner_loop (window_size cfg) [] q = Collected w r"
  shows "\<exists>t. processing_thread cfg env (Suc k) r = Some t
     \<and> processing_thread cfg env k q =
         Some (t\<lparr>transcribed := w # transcribed t,
                 enqueued := transcribe_window env k w @ enqueued t\<rparr>)"
proof -
  from processing_thread_total [OF assms(1)] obtain t where
    "processing_thread cfg env (Suc k) r = Some t" by blast
  with assms show ?thesis by (simp add: processing_thread.simps)
qed

lemma processing_thread_stop:
  assumes "0 < window_size cfg" "inner_loop (window_size cfg) [] q = Starved u"
  shows "processing_thread cfg env k q = Some \<lparr>transcribed = [], enqueued = [], unfinished = u\<rparr>"
  using assms by (simp add: processing_thread.simps)

lemma calls_from_Cons:
  "calls_from env k (w # ws) = transcribe_window env k w @ calls_from env (Suc k) ws"
  by (simp add: calls_from_def upt_rec)

lemma processing_thread_windows:
  assumes "0 < window_size cfg" "processing_thread cfg env k q = Some t"
  shows "concat (transcribed t) @ unfinished t = concat q
     \<and> int (length (unfinished t)) < window_size cfg
     \<and> enqueued t = calls_from env k (transcribed t)
     \<and> (\<forall>w\<in>set (transcribed t). window_size cfg \<le> int (length w)
           \<and> (\<exists>bs d. w = concat bs @ d \<and> set (bs @ [d]) \<subseteq> set q
                 \<and> int (length (concat bs)) < window_size cfg))"
  using assms
proof (induction cfg env k q arbitrary: t rule: processing_thread.induct)
  case (1 cfg env k q)
  let ?n = "window_size cfg"
  show ?case
  proof (cases "inner_loop ?n [] q")
    case (Starved u)
    from processing_thread_stop [OF "1.prems"(1) Starved] "1.prems"(2)
    have t: "t = \<lparr>transcribed = [], enqueued = [], unfinished = u\<rparr>" by simp
    from inner_loop_starved [OF Starved] show ?thesis
      by (auto simp: t calls_from_def)
  next
    case (Collected w r)
    from processing_thread_step [OF "1.prems"(1) Collected, of env k] "1.prems"(2)
    obtain t' where t': "processing_thread cfg env (Suc k) r = Some t'"
      and t: "t = t'\<lparr>transcribed := w # transcribed t',
                 enqueued := transcribe_window env k w @ enqueued t'\<rparr>"
      by auto
    from "1.prems"(1) have pos: "\<not> ?n \<le> 0" by simp
    note ih = "1.IH" [OF pos Collected "1.prems"(1) t']
    from inner_loop_collected [OF Collected] "1.prems"(1)
    obtain bs d where q: "q = bs @ d # r" and w: "w = concat bs @ d"
      and lt: "int (length (concat bs)) < ?n" and ge: "?n \<le> int (length w)"
      by auto
    have 1: "concat (transcribed t) @ unfinished t = concat q"
      using ih q w by (simp add: t)
    have 2: "int (length (unfinished t)) < ?n"
      using ih by (simp add: t)
    have 3: "enqueued t = calls_from env k (transcribed t)"
      using ih by (simp add: t calls_from_Cons)
    have 4: "\<forall>w\<in>set (transcribed t). ?n \<le> int (length w)
           \<and> (\<exists>bs d. w = concat bs @ d \<and> set (bs @ [d]) \<subseteq> set q
                 \<and> int (length (concat bs)) < ?n)"
    proof
      fix v assume "v \<in> set (transcribed t)"
      then consider "v = w" | "v \<in> set (transcribed t')" by (auto simp: t)
      then show "?n \<le> int (length v)
           \<and> (\<exists>bs d. v = concat bs @ d \<and> set (bs @ [d]) \<subseteq> set q
                 \<and> int (length (concat bs)) < ?n)"
      proof cases
        case 1
        have "set (bs @ [d]) \<subseteq> set q" by (auto simp: q)
        with w lt ge 1 show ?thesis by blast
      next
        case 2
        with ih obtain cs e where "?n \<le> int (length v)" "v = concat cs @ e"
          "set (cs @ [e]) \<subseteq> set r" "int (length (concat cs)) < ?n" by blast
        moreover have "set r \<subseteq> set q" by (auto simp: q)
        ultimately show ?thesis by blast
      qed
    qed
    from 1 2 3 4 show ?thesis by blast
  qed
qed


lemma processing_thread_segments:
  assumes "0 < window_size cfg" "processing_thread cfg env k q = Some t"
  shows "\<exists>groups tail. q = concat groups @ tail
     \<and> transcribed t = map concat groups \<and> unfinished t = concat tail
     \<and> (\<forall>g\<in>set groups. g \<noteq> []
           \<and> int (length (concat (butlast g))) < window_size cfg
           \<and> window_size cfg \<le> int (length (concat g)))"
  using assms
proof (induction cfg env k q arbitrary: t rule: processing_thread.induct)
  case (1 cfg env k q)
  let ?n = "window_size cfg"
  show ?case
  proof (cases "inner_loop ?n [] q")
    case (Starved u)
    from processing_thread_stop [OF "1.prems"(1) Starved] "1.prems"(2)
    have t: "t = \<lparr>transcribed = [], enqueued = [], unfinished = u\<rparr>" by simp
    from inner_loop_starved [OF Starved] have "u = concat q" by simp
    with t have "q = concat [] @ q \<and> transcribed t = map concat [] \<and> unfinished t = concat q
       \<and> (\<forall>g\<in>set ([] :: 'a list list list). g \<noteq> []
           \<and> int (length (concat (butlast g))) < ?n \<and> ?n \<le> int (length (concat g)))"
      by simp
    then show ?thesis by blast
  next
    case (Collected w r)
    from processing_thread_step [OF "1.prems"(1) Collected, of env k] "1.prems"(2)
    obtain t' where t': "processing_thread cfg env (Suc k) r = Some t'"
      and t: "t = t'\<lparr>transcribed := w # transcribed t',
                 enqueued := transcribe_window env k w @ enqueued t'\<rparr>"
      by auto
    from "1.prems"(1) have pos: "\<not> ?n \<le> 0" by simp
    from "1.IH" [OF pos Collected "1.prems"(1) t'] obtain groups tail where
      ih: "r = concat groups @ tail" "transcribed t' = map concat groups"
        "unfinished t' = concat tail"
        "\<forall>g\<in>set groups. g \<noteq> [] \<and> int (length (concat (butlast g))) < ?n
           \<and> ?n \<le> int (length (concat g))"
      by blast
    from inner_loop_collected [OF Collected] "1.prems"(1)
    obtain bs d where q: "q = bs @ d # r" and w: "w = concat bs @ d"
      and lt: "int (length (concat bs)) < ?n" and ge: "?n \<le> int (length w)"
      by auto
    let ?g = "bs @ [d]"
    have g: "?g \<noteq> [] \<and> int (length (concat (butlast ?g))) < ?n
        \<and> ?n \<le> int (length (concat ?g))"
      using lt ge w by simp
    have "q = concat (?g # groups) @ tail \<and> transcribed t = map concat (?g # groups)
       \<and> unfinished t = concat tail
       \<and> (\<forall>g\<in>set (?g # groups). g \<noteq> [] \<and> int (length (concat (butlast g))) < ?n
           \<and> ?n \<le> int (length (concat g)))"
      using ih g q w by (simp add: t)
    then show ?thesis by blast
  qed
qed

lemma demo_run:
  "processing_thread demo_config worker_demo 0 [[1, 2, 3], [4, 5], [6], [7, 8, 9, 10], [11]]
     = Some \<lparr>transcribed = [[1, 2, 3, 4, 5], [6, 7, 8, 9, 10]],
             enqueued = [(''**[00:00:01]** hello'', [1, 2, 3, 4, 5])],
             unfinished = [11]\<rparr>"
  by (simp add: processing_thread.simps demo_config_def window_size_def worker_demo_def
      transcribe_window_def whisper_demo_def clock_demo_def strip_eval)

text \<open>
  C2. With a positive window size the worker, run on any sequence of driver
  buffers, comes to wait on the empty queue having made one transcription call for
  each window. The buffers split into consecutive groups followed by a rest: each
  group is one window, submitted as soon as the count reached the window size,
  that is, the buffers of the group before its last stay below the window size and
  with the last buffer the group reaches it; the rest, which stays below the
  window size, is the unfinished window. So every round of the outer loop started
  from an empty buffer: the windows, in order, followed by the unfinished samples,
  are exactly the samples of the buffers, and no sample went to two calls. Calls
  number \<open>k\<close>, \<open>k + 1\<close>, ... were made for the first, second, ... window.
\<close>

theorem one_transcription_per_window:
  assumes "0 < window_size cfg"
  shows "\<exists>t. processing_thread cfg env k q = Some t
     \<and> concat (transcribed t) @ unfinished t = concat q
     \<and> int (length (unfinished t)) < window_size cfg
     \<and> enqueued t = calls_from env k (transcribed t)
     \<and> (\<forall>w\<in>set (transcribed t). \<exists>p d. w = p @ d
           \<and> int (length p) < window_size cfg \<and> window_size cfg \<le> int (length w))
     \<and> (\<exists>groups rest. q = concat groups @ rest
           \<and> transcribed t = map concat groups \<and> unfinished t = concat rest
           \<and> (\<forall>g\<in>set groups. g \<noteq> []
                 \<and> int (length (concat (butlast g))) < window_size cfg
                 \<and> window_size cfg \<le> int (length (concat g))))"
proof -
  from processing_thread_total [OF assms] obtain t where
    t: "processing_thread cfg env k q = Some t" by blast
  from processing_thread_windows [OF assms t]
  have a: "concat (transcribed t) @ unfinished t = concat q"
    and b: "int (length (unfinished t)) < window_size cfg"
    and c: "enqueued t = calls_from env k (transcribed t)"
    and d: "\<forall>w\<in>set (transcribed t). \<exists>p d. w = p @ d
           \<and> int (length p) < window_size cfg \<and> window_size cfg \<le> int (length w)"
    by blast+
  note e = processing_thread_segments [OF assms t]
  from t a b c d e show ?thesis by blast
qed

theorem one_transcription_per_window_witness:
  "0 < window_size demo_config
   \<and> processing_thread demo_config worker_demo 0 [[1, 2, 3], [4, 5], [6], [7, 8, 9, 10], [11]]
     = Some \<lparr>transcribed = [[1, 2, 3, 4, 5], [6, 7, 8, 9, 10]],
             enqueued = [(''**[00:00:01]** hello'', [1, 2, 3, 4, 5])],
             unfinished = [11]\<rparr>"
proof -
  have pos: "0 < window_size demo_config"
    by (simp add: demo_config_def window_size_def)
  from one_transcription_per_window [OF pos, of worker_demo 0
      "[[1, 2, 3], [4, 5], [6], [7, 8, 9, 10], [11]]"] pos demo_run
  show ?thesis by blast
qed


lemma transcribe_window_items:
  assumes "it \<in> set (transcribe_window env k w)"
  shows "\<exists>r. whisper env k w = Inr r \<and> strip r \<noteq> []
     \<and> it = (''**['' @ clock_hms env k @ '']** '' @ strip r, w)"
proof (cases "whisper env k w")
  case (Inl e)
  with assms show ?thesis by (simp add: transcribe_window_def)
next
  case (Inr r)
  with assms show ?thesis
    by (simp add: transcribe_window_def Let_def split: if_splits)
qed

lemma calls_from_items:
  "it \<in> set (calls_from env k ws) \<Longrightarrow>
   \<exists>i w. k \<le> i \<and> i < k + length ws \<and> w \<in> set ws \<and> it \<in> set (transcribe_window env i w)"
proof (induction ws arbitrary: k)
  case Nil
  then show ?case by (simp add: calls_from_def)
next
  case (Cons v ws)
  from Cons.prems consider "it \<in> set (transcribe_window env k v)"
    | "it \<in> set (calls_from env (Suc k) ws)"
    by (auto simp: calls_from_Cons)
  then show ?case
  proof cases
    case 1
    then show ?thesis by fastforce
  next
    case 2
    from Cons.IH [OF this] obtain i w where
      "Suc k \<le> i" "i < Suc k + length ws" "w \<in> set ws" "it \<in> set (transcribe_window env i w)"
      by blast
    then have "k \<le> i \<and> i < k + length (v # ws) \<and> w \<in> set (v # ws)
       \<and> it \<in> set (transcribe_window env i w)" by simp
    then show ?thesis by blast
  qed
qed

text \<open>
  C5. Whatever a transcription call puts on the results queue is one line, made
  from a text the service returned that is not whitespace only, and is that text
  stripped, which is not empty, behind the timestamp. A result that is a sequence
  of whitespace characters, the empty one included, puts nothing on the queue;
  these are the strings called whitespace only. The same holds for everything a
  run of the worker enqueues, and the transcript log grows by exactly the lines
  taken from the results queue.
\<close>

theorem transcript_line_only_for_text:
  "(\<forall>it\<in>set (transcribe_window env k w). \<exists>r. whisper env k w = Inr r
        \<and> \<not> whitespace_only r \<and> strip r \<noteq> []
        \<and> it = (''**['' @ clock_hms env k @ '']** '' @ strip r, w))
   \<and> (\<forall>cs. set cs \<subseteq> set unicode_spaces \<and> whisper env k w = Inr (concat cs) \<longrightarrow>
         transcribe_window env k w = [])
   \<and> (whitespace_only r \<longleftrightarrow> (\<exists>cs. set cs \<subseteq> set unicode_spaces \<and> r = concat cs))
   \<and> (\<forall>t. processing_thread cfg env k q = Some t \<longrightarrow>
         (\<forall>it\<in>set (enqueued t). \<exists>i r. whisper env i (snd it) = Inr r
            \<and> \<not> whitespace_only r
            \<and> fst it = ''**['' @ clock_hms env i @ '']** '' @ strip r))
   \<and> transcript_text (process_results rq s) = transcript_text s @ map fst rq"
proof -
  have a: "\<forall>it\<in>set (transcribe_window env k w). \<exists>r. whisper env k w = Inr r
        \<and> \<not> whitespace_only r \<and> strip r \<noteq> []
        \<and> it = (''**['' @ clock_hms env k @ '']** '' @ strip r, w)" for k w
    using transcribe_window_items [of _ env k w] strip_empty_iff by blast
  have b: "\<forall>cs. set cs \<subseteq> set unicode_spaces \<and> whisper env k w = Inr (concat cs) \<longrightarrow>
         transcribe_window env k w = []"
  proof (intro allI impI)
    fix cs assume h: "set cs \<subseteq> set unicode_spaces \<and> whisper env k w = Inr (concat cs)"
    then have "whitespace_only (concat cs)"
      using whitespace_only_iff by blast
    then have "strip (concat cs) = []"
      by (simp add: strip_empty_iff)
    with h show "transcribe_window env k w = []"
      by (simp add: transcribe_window_def)
  qed
  have c: "\<forall>it\<in>set (enqueued t). \<exists>i r. whisper env i (snd it) = Inr r
            \<and> \<not> whitespace_only r
            \<and> fst it = ''**['' @ clock_hms env i @ '']** '' @ strip r"
    if t: "processing_thread cfg env k q = Some t" for t
  proof (cases "0 < window_size cfg")
    case True
    from processing_thread_windows [OF True t]
    have e: "enqueued t = calls_from env k (transcribed t)" by blast
    show ?thesis
    proof
      fix it assume "it \<in> set (enqueued t)"
      with e calls_from_items obtain i v where "it \<in> set (transcribe_window env i v)"
        by metis
      with a [of i v] show "\<exists>i r. whisper env i (snd it) = Inr r
            \<and> \<not> whitespace_only r
            \<and> fst it = ''**['' @ clock_hms env i @ '']** '' @ strip r"
        by fastforce
    qed
  next
    case False
    with t show ?thesis by (simp add: processing_thread.simps)
  qed
  from a [of k w] b c whitespace_only_iff [of r] show ?thesis
    by (simp add: process_results_transcript)
qed

theorem transcript_line_only_for_text_witness:
  "transcribe_window worker_demo 0 [1, 2, 3, 4, 5] = [(''**[00:00:01]** hello'', [1, 2, 3, 4, 5])]
   \<and> whisper worker_demo 0 [1, 2, 3, 4, 5] = Inr '' hello ''
   \<and> whisper worker_demo 2 [1, 2, 3, 4] = Inr ''  ''
   \<and> transcribe_window worker_demo 2 [1, 2, 3, 4] = []"
  using transcript_line_only_for_text [of worker_demo 0 "[1, 2, 3, 4, 5]" "[]" demo_config "[]"
      "[]" "initial no_files"]
    transcript_line_only_for_text [of worker_demo 2 "[1, 2, 3, 4]" "[]" demo_config "[]"
      "[]" "initial no_files"]
  by (simp add: worker_demo_def whisper_demo_def clock_demo_def transcribe_window_def
      strip_eval)

lemma demo_step:
  "inner_loop (window_size demo_config) [] [[6], [7, 8, 9, 10], [11, 12, 13], [14]]
     = Collected [6, 7, 8, 9, 10] [[11 :: int, 12, 13], [14]]"
  by (simp add: demo_config_def window_size_def)

text \<open>
  C7. If the transcription call for a window raises, nothing is put on the results
  queue for that window, so emptying the queue leaves the program state, and with
  it the transcript log, as it was; and the worker goes on: its run is the run on
  the remaining buffers, started from an empty window with the next call number,
  with the failed window recorded as submitted once and never again.
\<close>

theorem transcription_error_drops_window:
  assumes "0 < window_size cfg"
    and "inner_loop (window_size cfg) [] q = Collected w rest"
    and "whisper env k w = Inl e"
  shows "transcribe_window env k w = []
     \<and> process_results (transcribe_window env k w) s = s
     \<and> (\<exists>t. processing_thread cfg env (Suc k) rest = Some t
          \<and> processing_thread cfg env k q = Some (t\<lparr>transcribed := w # transcribed t\<rparr>))"
proof -
  have a: "transcribe_window env k w = []"
    using assms(3) by (simp add: transcribe_window_def)
  from processing_thread_step [OF assms(1,2), of env k] a
  show ?thesis by auto
qed

theorem transcription_error_drops_window_witness:
  "0 < window_size demo_config
   \<and> inner_loop (window_size demo_config) [] [[6], [7, 8, 9, 10], [11, 12, 13], [14]]
       = Collected [6, 7, 8, 9, 10] [[11 :: int, 12, 13], [14]]
   \<and> whisper worker_demo 1 [6, 7, 8, 9, 10] = Inl ''model not loaded''
   \<and> processing_thread demo_config worker_demo 1 [[6], [7, 8, 9, 10], [11, 12, 13], [14]]
       = Some \<lparr>transcribed = [[6, 7, 8, 9, 10], [11, 12, 13, 14]], enqueued = [],
               unfinished = []\<rparr>"
proof -
  have pos: "0 < window_size demo_config"
    by (simp add: demo_config_def window_size_def)
  have err: "whisper worker_demo 1 [6, 7, 8, 9, 10] = Inl ''model not loaded''"
    by (simp add: worker_demo_def whisper_demo_def)
  have rest: "processing_thread demo_config worker_demo (Suc 1) [[11, 12, 13], [14]]
       = Some \<lparr>transcribed = [[11, 12, 13, 14]], enqueued = [], unfinished = []\<rparr>"
    by (simp add: processing_thread.simps demo_config_def window_size_def worker_demo_def
      transcribe_window_def whisper_demo_def clock_demo_def strip_eval)
  from transcription_error_drops_window [OF pos demo_step err, of "initial Map.empty :: int app"]
  obtain t where t1: "processing_thread demo_config worker_demo (Suc 1) [[11, 12, 13], [14]] = Some t"
    and t2: "processing_thread demo_config worker_demo 1 [[6], [7, 8, 9, 10], [11, 12, 13], [14]]
       = Some (t\<lparr>transcribed := [6, 7, 8, 9, 10] # transcribed t\<rparr>)"
    by blast
  from t1 rest have "t = \<lparr>transcribed = [[11, 12, 13, 14]], enqueued = [], unfinished = []\<rparr>"
    by simp
  with t2 have "processing_thread demo_config worker_demo 1 [[6], [7, 8, 9, 10], [11, 12, 13], [14]]
       = Some \<lparr>transcribed = [[6, 7, 8, 9, 10], [11, 12, 13, 14]], enqueued = [],
               unfinished = []\<rparr>"
    by simp
  with pos demo_step err show ?thesis by blast
qed


lemma one_long_buffer:
  assumes "0 < window_size cfg"
  shows "processing_thread cfg env k [replicate (nat (window_size cfg) + 1) x]
     = Some \<lparr>transcribed = [replicate (nat (window_size cfg) + 1) x],
             enqueued = transcribe_window env k (replicate (nat (window_size cfg) + 1) x),
             unfinished = []\<rparr>"
proof -
  let ?b = "replicate (nat (window_size cfg) + 1) x"
  have "inner_loop (window_size cfg) [] [?b] = Collected ?b []"
    using assms by simp
  from processing_thread_step [OF assms this, of env k]
  obtain t where t1: "processing_thread cfg env (Suc k) [] = Some t"
    and t2: "processing_thread cfg env k [?b] =
         Some (t\<lparr>transcribed := ?b # transcribed t,
                 enqueued := transcribe_window env k ?b @ enqueued t\<rparr>)"
    by blast
  have "inner_loop (window_size cfg) [] ([] :: 'a list list) = Starved []"
    using assms by simp
  from processing_thread_stop [OF assms this, of env "Suc k"] t1
  have "t = \<lparr>transcribed = [], enqueued = [], unfinished = []\<rparr>" by simp
  with t2 show ?thesis by simp
qed

text \<open>
  C10. Every window a run of the worker submits to transcription has at least
  \<open>sample_rate \<times> chunk_duration\<close> samples, and it is made of whole buffers of the
  queue: those before its last buffer together stay below the window size, and the
  last buffer is appended whole. So a window can be longer than the window size:
  a single buffer with one sample more than the window size is submitted as it is.
\<close>

theorem window_at_least_window_size:
  "(\<forall>t. processing_thread cfg env k q = Some t \<longrightarrow>
      (\<forall>w\<in>set (transcribed t). window_size cfg \<le> int (length w)
         \<and> (\<exists>bs d. w = concat bs @ d \<and> set (bs @ [d]) \<subseteq> set q
               \<and> int (length (concat bs)) < window_size cfg)))
   \<and> (0 < window_size cfg \<longrightarrow>
        (\<exists>t w. processing_thread cfg env k [replicate (nat (window_size cfg) + 1) x] = Some t
           \<and> w \<in> set (transcribed t) \<and> window_size cfg < int (length w)))"
proof (intro conjI allI impI)
  fix t assume t: "processing_thread cfg env k q = Some t"
  show "\<forall>w\<in>set (transcribed t). window_size cfg \<le> int (length w)
         \<and> (\<exists>bs d. w = concat bs @ d \<and> set (bs @ [d]) \<subseteq> set q
               \<and> int (length (concat bs)) < window_size cfg)"
  proof (cases "0 < window_size cfg")
    case True
    from processing_thread_windows [OF True t] show ?thesis by blast
  next
    case False
    with t show ?thesis by (simp add: processing_thread.simps)
  qed
next
  assume pos: "0 < window_size cfg"
  let ?b = "replicate (nat (window_size cfg) + 1) x"
  from pos have "window_size cfg < int (length ?b)" by simp
  with one_long_buffer [OF pos, of env k x]
  show "\<exists>t w. processing_thread cfg env k [?b] = Some t
           \<and> w \<in> set (transcribed t) \<and> window_size cfg < int (length w)"
    by (intro exI [of _ "\<lparr>transcribed = [?b],
             enqueued = transcribe_window env k ?b, unfinished = []\<rparr>"] exI [of _ ?b]) simp
qed

theorem window_at_least_window_size_witness:
  "0 < window_size scribe_config \<and> 0 < window_size scribe_cli_config
   \<and> processing_thread demo_config worker_demo 0 [[1, 2, 3], [4, 5], [6], [7, 8, 9, 10], [11]]
     = Some \<lparr>transcribed = [[1, 2, 3, 4, 5], [6, 7, 8, 9, 10]],
             enqueued = [(''**[00:00:01]** hello'', [1, 2, 3, 4, 5])],
             unfinished = [11]\<rparr>
   \<and> (\<exists>t w. processing_thread scribe_config worker_demo 0 [replicate 112001 0] = Some t
           \<and> w \<in> set (transcribed t) \<and> 112000 < int (length w))
   \<and> (\<exists>t w. processing_thread scribe_cli_config worker_demo 0 [replicate 80001 0] = Some t
           \<and> w \<in> set (transcribed t) \<and> 80000 < int (length w))"
proof -
  have a: "window_size scribe_config = 112000" "window_size scribe_cli_config = 80000"
    by (simp_all add: window_size_def scribe_config_def scribe_cli_config_def)
  from window_at_least_window_size [of scribe_config worker_demo 0 "[]" 0]
    window_at_least_window_size [of scribe_cli_config worker_demo 0 "[]" 0]
    window_at_least_window_size [of demo_config worker_demo 0
      "[[1, 2, 3], [4, 5], [6], [7, 8, 9, 10], [11]]" 0]
    demo_run
  show ?thesis by (simp add: a)
qed

section \<open>Device selection\<close>


lemma contains_iff: "contains sub s \<longleftrightarrow> (\<exists>p t. s = p @ sub @ t)"
proof (induction s)
  case Nil
  then show ?case by simp
next
  case (Cons c s)
  show ?case
  proof
    assume "contains sub (c # s)"
    then consider "startswith sub (c # s)" | "contains sub s" by auto
    then show "\<exists>p t. c # s = p @ sub @ t"
    proof cases
      case 1
      then obtain t where "c # s = [] @ sub @ t" by (auto simp: startswith_iff)
      then show ?thesis by blast
    next
      case 2
      with Cons obtain p t where "s = p @ sub @ t" by blast
      then have "c # s = (c # p) @ sub @ t" by simp
      then show ?thesis by blast
    qed
  next
    assume "\<exists>p t. c # s = p @ sub @ t"
    then obtain p t where e: "c # s = p @ sub @ t" by blast
    show "contains sub (c # s)"
    proof (cases p)
      case Nil
      with e have "startswith sub (c # s)" by (simp add: startswith_iff)
      then show ?thesis by simp
    next
      case (Cons a p')
      with e have "s = p' @ sub @ t" by simp
      with Cons.IH show ?thesis by auto
    qed
  qed
qed

lemma blackhole_idx_found:
  "find (\<lambda>x. contains ''BlackHole'' (f x)) xs = Some y \<Longrightarrow>
   \<exists>j. blackhole_idx d i (map f xs) = i + int j \<and> j < length xs \<and> xs ! j = y"
proof (induction xs arbitrary: i)
  case Nil
  then show ?case by simp
next
  case (Cons x xs)
  show ?case
  proof (cases "contains ''BlackHole'' (f x)")
    case True
    with Cons.prems have "blackhole_idx d i (map f (x # xs)) = i + int 0 \<and> 0 < length (x # xs)
      \<and> (x # xs) ! 0 = y" by simp
    then show ?thesis by blast
  next
    case False
    with Cons.prems have "find (\<lambda>x. contains ''BlackHole'' (f x)) xs = Some y" by simp
    from Cons.IH [OF this, of "i + 1"] obtain j where
      "blackhole_idx d (i + 1) (map f xs) = i + 1 + int j" "j < length xs" "xs ! j = y"
      by blast
    with False have "blackhole_idx d i (map f (x # xs)) = i + int (Suc j)
      \<and> Suc j < length (x # xs) \<and> (x # xs) ! Suc j = y" by simp
    then show ?thesis by blast
  qed
qed

lemma blackhole_idx_none:
  "find (\<lambda>x. contains ''BlackHole'' (f x)) xs = None \<Longrightarrow> blackhole_idx d i (map f xs) = d"
  by (induction xs arbitrary: i) (auto split: if_splits)

lemma item_nth: "j < length xs \<Longrightarrow> item xs (int j) = Some (xs ! j)"
  by (simp add: item_def)

lemma item_first: "xs \<noteq> [] \<Longrightarrow> item xs 0 = Some (hd xs)"
  by (cases xs) (simp_all add: item_def)

text \<open>
  C8. While the user has chosen nothing, both front ends select the first input
  device whose name contains \<^verbatim>\<open>BlackHole\<close> if there is one, and the first input device
  otherwise: the select box of \<^verbatim>\<open>scribe.py\<close> shows its name, and
  \<^verbatim>\<open>select_input_device\<close> of \<^verbatim>\<open>scribe_cli.py\<close>, given an empty line, returns its index.
  With no input device at all the select box is empty and the terminal front end
  exits with status 1.
\<close>

theorem default_input_device:
  "(let names = input_names device_list in
      (\<forall>n. find (contains ''BlackHole'') names = Some n \<longrightarrow>
            selected_device device_list None = Some n)
      \<and> (find (contains ''BlackHole'') names = None \<longrightarrow>
            selected_device device_list None = (if names = [] then None else Some (hd names))))
   \<and> (let input_devices = filter (\<lambda>d. max_input_channels d > 0) device_list in
      (\<forall>d. find (\<lambda>d. contains ''BlackHole'' (name d)) input_devices = Some d \<longrightarrow>
            select_input_device int_of fallback [] device_list = Selected (index d))
      \<and> (find (\<lambda>d. contains ''BlackHole'' (name d)) input_devices = None \<longrightarrow>
            select_input_device int_of fallback [] device_list =
              (if input_devices = [] then SysExit 1 else Selected (index (hd input_devices)))))"
proof -
  let ?names = "input_names device_list"
  let ?inputs = "filter (\<lambda>d. max_input_channels d > 0) device_list"
  have a: "selected_device device_list None = Some n"
    if "find (contains ''BlackHole'') ?names = Some n" for n
  proof -
    from that have "find (\<lambda>x. contains ''BlackHole'' (id x)) ?names = Some n" by simp
    from blackhole_idx_found [OF this, of 0 0] show ?thesis
      by (auto simp: selected_device_def selectbox_def Let_def item_nth)
  qed
  have b: "selected_device device_list None = (if ?names = [] then None else Some (hd ?names))"
    if "find (contains ''BlackHole'') ?names = None"
  proof -
    from that have "find (\<lambda>x. contains ''BlackHole'' (id x)) ?names = None" by simp
    from blackhole_idx_none [OF this, of 0 0] show ?thesis
      by (auto simp: selected_device_def selectbox_def Let_def item_first) (simp add: item_def)
  qed
  have c: "select_input_device int_of fallback [] device_list = Selected (index d)"
    if "find (\<lambda>d. contains ''BlackHole'' (name d)) ?inputs = Some d" for d
  proof -
    from blackhole_idx_found [OF that, of "- 1" 0] obtain j where
      j: "blackhole_idx (- 1) 0 (map name ?inputs) = int j" "j < length ?inputs" "?inputs ! j = d"
      by auto
    then have "?inputs \<noteq> []" by auto
    with j show ?thesis
      by (simp add: select_input_device_def Let_def item_nth)
  qed
  have d: "select_input_device int_of fallback [] device_list =
              (if ?inputs = [] then SysExit 1 else Selected (index (hd ?inputs)))"
    if "find (\<lambda>d. contains ''BlackHole'' (name d)) ?inputs = None"
    using blackhole_idx_none [OF that, of "- 1" 0]
    by (simp add: select_input_device_def Let_def item_first)
  from a b c d show ?thesis by (simp add: Let_def)
qed

theorem default_input_device_witness:
  "find (contains ''BlackHole'') (input_names demo_devices) = Some ''BlackHole 2ch''
   \<and> selected_device demo_devices None = Some ''BlackHole 2ch''
   \<and> select_input_device int_of_digit 0 [] demo_devices = Selected 2
   \<and> find (contains ''BlackHole'') (input_names (take 2 demo_devices)) = None
   \<and> selected_device (take 2 demo_devices) None = Some ''MacBook Pro Microphone''
   \<and> select_input_device int_of_digit 7 [] (take 2 demo_devices) = Selected 0"
  using default_input_device [of demo_devices int_of_digit 0]
    default_input_device [of "take 2 demo_devices" int_of_digit 7]
  by (simp add: Let_def demo_devices_def input_names_def)

section \<open>Summaries and saving\<close>


lemma summary_check_fires:
  assumes "i \<le> int (length (transcript_text s)) - last_summary_idx s"
  shows "summary_check i env s =
     (s\<lparr>summary_log := summary_log s @ nl @ nl @ ''**Time '' @ clock_hm env @ ''**'' @ nl
            @ generate_summary env (clean_text (transcript_text s) (last_summary_idx s)),
         last_summary_idx := int (length (transcript_text s))\<rparr>,
      [clean_text (transcript_text s) (last_summary_idx s)])"
  using assms by (simp add: summary_check_def Let_def clean_text_def)

lemma summary_check_idle:
  assumes "\<not> i \<le> int (length (transcript_text s)) - last_summary_idx s"
  shows "summary_check i env s = (s, [])"
  using assms by (simp add: summary_check_def Let_def)

lemma tick_fires:
  assumes "i \<le> int (length (transcript_text s) + length rq) - last_summary_idx s"
  shows "snd (tick i env rq s) = [clean_text (transcript_text s @ map fst rq) (last_summary_idx s)]"
    and "summary_log (fst (tick i env rq s)) =
       summary_log s @ nl @ nl @ ''**Time '' @ clock_hm env @ ''**'' @ nl
         @ generate_summary env (clean_text (transcript_text s @ map fst rq) (last_summary_idx s))"
    and "last_summary_idx (fst (tick i env rq s)) = int (length (transcript_text s) + length rq)"
proof -
  let ?s = "process_results rq s"
  from assms have "i \<le> int (length (transcript_text ?s)) - last_summary_idx ?s"
    by (simp add: process_results_transcript process_results_frame)
  from summary_check_fires [OF this, of env]
  show "snd (tick i env rq s) = [clean_text (transcript_text s @ map fst rq) (last_summary_idx s)]"
    and "summary_log (fst (tick i env rq s)) =
       summary_log s @ nl @ nl @ ''**Time '' @ clock_hm env @ ''**'' @ nl
         @ generate_summary env (clean_text (transcript_text s @ map fst rq) (last_summary_idx s))"
    and "last_summary_idx (fst (tick i env rq s)) = int (length (transcript_text s) + length rq)"
    by (simp_all add: tick_def process_results_transcript process_results_frame)
qed

lemma scribe_session_transcript:
  "transcript_text (scribe_session runs s) =
     transcript_text s @ concat (map (\<lambda>(env, btn, rq). map fst rq) runs)"
  by (induction runs s rule: scribe_session.induct)
    (simp_all add: scribe_rerun_fst controls_frame tick_transcript)

lemma main_loop_transcript:
  "transcript_text (main_loop its s) =
     transcript_text s @ concat (map (\<lambda>(env, rq). map fst rq) its)"
  by (induction its s rule: main_loop.induct)
    (simp_all add: scribe_cli_iteration_def tick_transcript)

text \<open>
  C3. If the call of the summarisation service made by a tick raises, then in both
  front ends, when the check fires, the summary log grows by exactly one entry,
  the time heading followed by the warning sign and the error text, and the cursor
  moves to the length of the log, so the span is not summarised again. Whatever
  the service answers, the transcript log after any number of ticks holds every
  line that arrived, in order.
\<close>

theorem failed_summary_still_advances:
  assumes "ollama_chat env (prompt (clean_text (transcript_text s @ map fst rq) (last_summary_idx s)))
     = Inl e"
  shows "(25 \<le> int (length (transcript_text s) + length rq) - last_summary_idx s \<longrightarrow>
       (let s' = fst (scribe_rerun env btn rq s) in
          summary_log s' = summary_log s @ error_entry env e
          \<and> last_summary_idx s' = int (length (transcript_text s'))
          \<and> transcript_text s' = transcript_text s @ map fst rq))
     \<and> (15 \<le> int (length (transcript_text s) + length rq) - last_summary_idx s \<longrightarrow>
       (let s' = fst (scribe_cli_iteration env rq s) in
          summary_log s' = summary_log s @ error_entry env e
          \<and> last_summary_idx s' = int (length (transcript_text s'))
          \<and> transcript_text s' = transcript_text s @ map fst rq))
     \<and> transcript_text (scribe_session runs s) =
          transcript_text s @ concat (map (\<lambda>(env, btn, rq). map fst rq) runs)
     \<and> transcript_text (main_loop its s) =
          transcript_text s @ concat (map (\<lambda>(env, rq). map fst rq) its)"
proof -
  have g: "generate_summary env (clean_text (transcript_text s @ map fst rq) (last_summary_idx s))
     = warning_sign @ '' LLM Error: '' @ e"
    using assms by (simp add: generate_summary_def)
  have a: "summary_log (fst (tick i env rq s)) = summary_log s @ error_entry env e
      \<and> last_summary_idx (fst (tick i env rq s)) = int (length (transcript_text (fst (tick i env rq s))))"
    if "i \<le> int (length (transcript_text s) + length rq) - last_summary_idx s" for i
    using tick_fires(2,3) [OF that, of env] g
    by (simp add: error_entry_def tick_transcript)
  show ?thesis
    using a [of 25] a [of 15]
    by (simp add: Let_def scribe_rerun_fst controls_frame scribe_cli_iteration_def
        tick_transcript scribe_config_def scribe_cli_config_def
        scribe_session_transcript main_loop_transcript)
qed

theorem failed_summary_still_advances_witness:
  "ollama_chat env_down (prompt (clean_text
       (transcript_text (initial Map.empty :: int app)
          @ map fst (replicate 25 (''**[00:00:01]** hello'', [0])))
       (last_summary_idx (initial Map.empty :: int app))))
     = Inl ''connection refused''
   \<and> summary_log (fst (scribe_rerun env_down NoClick
         (replicate 25 (''**[00:00:01]** hello'', [0])) (initial Map.empty :: int app)))
       = error_entry env_down ''connection refused''
   \<and> last_summary_idx (fst (scribe_rerun env_down NoClick
         (replicate 25 (''**[00:00:01]** hello'', [0])) (initial Map.empty :: int app))) = 25
   \<and> last_summary_idx (fst (scribe_cli_iteration env_down
         (replicate 25 (''**[00:00:01]** hello'', [0])) (initial Map.empty :: int app))) = 25"
proof -
  have h: "ollama_chat env_down (prompt (clean_text
       (transcript_text (initial Map.empty :: int app)
          @ map fst (replicate 25 (''**[00:00:01]** hello'', [0])))
       (last_summary_idx (initial Map.empty :: int app))))
     = Inl ''connection refused''"
    by (simp add: env_down_def chat_down_def)
  from failed_summary_still_advances [OF h, of NoClick "[]" "[]"] h
  show ?thesis by (simp add: Let_def initial_def)
qed

text \<open>
  C6, as claimed, fails in the terminal front end: with an empty transcript log
  \<^verbatim>\<open>save_data\<close> writes no transcript file, and a file of that name that exists keeps
  its content.
\<close>

theorem save_empty_transcript_counterexample:
  "files (save_data (initial old_files)) ''meeting_transcript.txt'' = Some (Text ''old notes'')
   \<and> files (save_data (initial old_files)) ''meeting_transcript.txt'' \<noteq> Some (Text [])"
  by (simp add: save_data_def initial_def old_files_def)

text \<open>
  C6, amended. With an empty transcript log the save button of \<^verbatim>\<open>scribe.py\<close> writes an
  empty transcript file, whatever file of that name existed, and \<^verbatim>\<open>save_data\<close> of
  \<^verbatim>\<open>scribe_cli.py\<close> leaves the transcript file as it was, absent or not.
\<close>

theorem save_empty_transcript:
  assumes "transcript_text s = []"
  shows "files (save_button s) ''meeting_transcript.txt'' = Some (Text [])
     \<and> files (save_data s) ''meeting_transcript.txt'' = files s ''meeting_transcript.txt''"
  using assms by (simp add: save_button_def save_data_def Let_def)

theorem save_empty_transcript_witness:
  "transcript_text (initial old_files) = []
   \<and> files (save_button (initial old_files)) ''meeting_transcript.txt'' = Some (Text [])
   \<and> files (save_data (initial old_files)) ''meeting_transcript.txt'' = Some (Text ''old notes'')"
proof -
  have h: "transcript_text (initial old_files) = []"
    by (simp add: initial_def)
  from save_empty_transcript [OF h] h show ?thesis
    by (simp add: initial_def old_files_def)
qed

text \<open>
  C9. Saving changes nothing but the files: after the save button of \<^verbatim>\<open>scribe.py\<close>
  and after \<^verbatim>\<open>save_data\<close> of \<^verbatim>\<open>scribe_cli.py\<close> the recording flag, the transcript log,
  the audio buffer, the summary log and the boundary cursor have the values they
  had before, whether the recording flag is set or not.
\<close>

theorem save_keeps_state:
  "save_button s = s\<lparr>files := files (save_button s)\<rparr>
   \<and> controls env SaveClick s = s\<lparr>files := files (save_button s)\<rparr>
   \<and> save_data s = s\<lparr>files := files (save_data s)\<rparr>
   \<and> recording (save_button s) = recording s
   \<and> transcript_text (save_button s) = transcript_text s
   \<and> audio_buffer (save_button s) = audio_buffer s
   \<and> summary_log (save_button s) = summary_log s
   \<and> last_summary_idx (save_button s) = last_summary_idx s
   \<and> recording (save_data s) = recording s
   \<and> transcript_text (save_data s) = transcript_text s
   \<and> audio_buffer (save_data s) = audio_buffer s
   \<and> summary_log (save_data s) = summary_log s
   \<and> last_summary_idx (save_data s) = last_summary_idx s"
  by (simp add: save_button_def save_data_def Let_def)


theorem save_keeps_state_witness:
  "recording (save_button listening) \<and> recording (save_data listening)
   \<and> transcript_text (save_button listening) = [''**[00:00:01]** hello'']
   \<and> last_summary_idx (save_data listening) = 0
   \<and> \<not> recording (save_button (initial old_files))
   \<and> files (save_button listening) ''meeting_transcript.txt'' = Some (Text ''**[00:00:01]** hello'')
   \<and> files (save_data listening) ''meeting_audio.wav'' = Some (Wav 16000 [1, 2, 3, 4, 5])"
  using save_keeps_state [of listening env_ok] save_keeps_state [of "initial old_files" env_ok]
  by (simp add: listening_def initial_def save_button_def save_data_def Let_def
      scribe_config_def scribe_cli_config_def)

section \<open>The text submitted for a summary\<close>


lemma split_from_nonempty: "split_from sep cur s \<noteq> []"
  by (induction sep cur s rule: split_from.induct) auto

lemma split_from_no_marker:
  "\<not> contains sep said \<Longrightarrow> split_from sep cur said = [cur @ said]"
  by (induction said arbitrary: cur) auto

lemma split_from_skip:
  "\<not> startswith sep (c # cs) \<Longrightarrow> split_from sep cur (c # cs) = split_from sep (cur @ [c]) cs"
  by simp

lemma split_from_cut:
  "startswith sep (c # cs) \<Longrightarrow>
   split_from sep cur (c # cs) = cur # split_from sep [] (drop (length sep - 1) cs)"
  by simp

lemma marker_no_overlap:
  assumes "startswith '']** '' (c # pre1 @ '']** '' @ said)"
  shows "\<exists>a b d pre4. pre1 = a # b # d # pre4"
proof (cases pre1)
  case Nil
  with assms show ?thesis by simp
next
  case p2: (Cons a pre2)
  show ?thesis
  proof (cases pre2)
    case Nil
    with assms p2 show ?thesis by simp
  next
    case p3: (Cons b pre3)
    show ?thesis
    proof (cases pre3)
      case Nil
      with assms p2 p3 show ?thesis by simp
    next
      case (Cons d pre4)
      with p2 p3 show ?thesis by simp
    qed
  qed
qed

lemma last_split_marker:
  assumes "\<not> contains '']** '' said"
  shows "last (split_from '']** '' cur (pre @ '']** '' @ said)) = said"
proof -
  define sep where "sep = '']** ''"
  have len: "length sep = 4"
    by (simp add: sep_def)
  have free: "\<not> contains sep said"
    unfolding sep_def by (rule assms)
  have hd_sep: "sep @ said = CHR '']'' # (''** '' @ said)"
    by (simp add: sep_def)
  have tail: "split_from sep [] said = [said]"
    using split_from_no_marker [OF free, of "[]"] by simp
  have base: "last (split_from sep cur' (sep @ said)) = said" for cur'
  proof -
    have "startswith sep (CHR '']'' # (''** '' @ said))"
      using hd_sep startswith_iff [of sep "sep @ said"] by auto
    from split_from_cut [OF this, of cur'] show ?thesis
      by (simp add: hd_sep len tail)
  qed
  have main: "last (split_from sep cur (pre @ sep @ said)) = said"
  proof (induction "length pre" arbitrary: pre cur rule: less_induct)
    case less
    show ?case
    proof (cases pre)
      case Nil
      with base show ?thesis by simp
    next
      case p1: (Cons c pre1)
      have ih1: "last (split_from sep (cur @ [c]) (pre1 @ sep @ said)) = said"
        using less [of pre1 "cur @ [c]"] p1 by simp
      have unfold: "pre @ sep @ said = c # (pre1 @ sep @ said)"
        using p1 by simp
      show ?thesis
      proof (cases "startswith sep (c # (pre1 @ sep @ said))")
        case False
        from split_from_skip [OF False, of cur] ih1 show ?thesis
          by (simp only: unfold)
      next
        case True
        then have "startswith '']** '' (c # pre1 @ '']** '' @ said)"
          unfolding sep_def .
        from marker_no_overlap [OF this]
        obtain a b d pre4 where p: "pre1 = a # b # d # pre4" by blast
        have ih4: "last (split_from sep [] (pre4 @ sep @ said)) = said"
          using less [of pre4 "[]"] p1 p by simp
        have "drop (length sep - 1) (pre1 @ sep @ said) = pre4 @ sep @ said"
          by (simp add: len p)
        with split_from_cut [OF True, of cur]
        have "split_from sep cur (pre @ sep @ said) = cur # split_from sep [] (pre4 @ sep @ said)"
          by (simp only: unfold)
        with ih4 split_from_nonempty [of sep "[]" "pre4 @ sep @ said"]
        show ?thesis by (simp del: split_from.simps)
      qed
    qed
  qed
  then show ?thesis unfolding sep_def .
qed

lemma strip_timestamp_formatted:
  "\<not> contains '']** '' said \<Longrightarrow> strip_timestamp (''**['' @ ts @ '']** '' @ said) = said"
  using last_split_marker [of said "[]" "''**['' @ ts"]
  by (simp add: strip_timestamp_def split_def)

lemma strip_timestamp_plain:
  "\<not> contains '']** '' line \<Longrightarrow> strip_timestamp line = line"
  by (simp add: strip_timestamp_def split_def split_from_no_marker)


lemma slice_from_drop: "0 \<le> i \<Longrightarrow> slice_from xs i = drop (nat i) xs"
  by (simp add: slice_from_def Let_def min_def)


lemma strip_timestamp_ok: "strip_timestamp ''**[00:00:02]** ok'' = ''ok''"
  by (simp add: strip_timestamp_def split_def)

lemma strip_timestamp_marker: "strip_timestamp ''**[00:00:01]** a]** b'' = ''b''"
  by (simp add: strip_timestamp_def split_def)

text \<open>
  C4. The code breaks the claim when a transcribed text itself holds the
  characters \<^verbatim>\<open>]** \<close>. For the text \<^verbatim>\<open>a]** b\<close> the worker enqueues the line
  \<^verbatim>\<open>**[00:00:01]** a]** b\<close>; the summary check, which takes what follows the last
  \<^verbatim>\<open>]** \<close> of a line, submits \<^verbatim>\<open>b\<close> for it and not \<^verbatim>\<open>a]** b\<close>, the line without its
  timestamp. This happens with an interval of 1 and, with the line followed by 14
  or 24 plain lines, in an iteration of the terminal loop and in a run of the
  Streamlit script with the intervals they have.
\<close>

theorem summary_input_loses_text:
  "transcribe_window worker_marker 0 [1, 2, 3, 4] = [(''**[00:00:01]** a]** b'', [1, 2, 3, 4])]
   \<and> snd (tick 1 env_ok (transcribe_window worker_marker 0 [1, 2, 3, 4]) (initial no_files))
       = [''b'']
   \<and> snd (tick 1 env_ok (transcribe_window worker_marker 0 [1, 2, 3, 4]) (initial no_files))
       \<noteq> [join '' '' (map without_timestamp_prefix [''**[00:00:01]** a]** b''])]
   \<and> without_timestamp_prefix ''**[00:00:01]** a]** b'' = ''a]** b''
   \<and> snd (scribe_cli_iteration env_ok
          (transcribe_window worker_marker 0 [1, 2, 3, 4]
             @ replicate 14 (''**[00:00:02]** ok'', [5, 6, 7, 8]))
          (initial no_files))
       = [join '' '' (''b'' # replicate 14 ''ok'')]
   \<and> snd (scribe_rerun env_ok NoClick
          (transcribe_window worker_marker 0 [1, 2, 3, 4]
             @ replicate 24 (''**[00:00:02]** ok'', [5, 6, 7, 8]))
          (initial no_files))
       = [join '' '' (''b'' # replicate 24 ''ok'')]"
proof -
  have w: "transcribe_window worker_marker 0 [1, 2, 3, 4]
      = [(''**[00:00:01]** a]** b'', [1, 2, 3, 4])]"
    by (simp add: transcribe_window_def worker_marker_def whisper_marker_def clock_demo_def
        strip_eval)
  have a: "snd (tick i env_ok ((''**[00:00:01]** a]** b'', [1, 2, 3, 4])
             # replicate n (''**[00:00:02]** ok'', [5, 6, 7, 8])) (initial no_files))
     = [join '' '' (''b'' # replicate n ''ok'')]" if "i \<le> 1 + int n" for i n
  proof -
    have "i \<le> int (length (transcript_text (initial no_files :: int app))
        + length ((''**[00:00:01]** a]** b'', [1 :: int, 2, 3, 4])
             # replicate n (''**[00:00:02]** ok'', [5, 6, 7, 8])))
        - last_summary_idx (initial no_files :: int app)"
      using that by (simp add: initial_def)
    from tick_fires(1) [OF this, of env_ok] show ?thesis
      by (simp add: clean_text_def slice_from_def initial_def strip_timestamp_ok
          strip_timestamp_marker)
  qed
  have b: "without_timestamp_prefix ''**[00:00:01]** a]** b'' = ''a]** b''"
    by (simp add: without_timestamp_prefix_def)
  from a [of 1 0] a [of 15 14] a [of 25 24] b show ?thesis
    by (simp add: w scribe_cli_iteration_def scribe_rerun_def scribe_config_def
        scribe_cli_config_def split: prod.splits)
qed

text \<open>
  Where the claimed input is submitted: when the check fires, with a cursor that
  is not negative, one call is made and the cursor moves to the length of the log;
  the text joins with single spaces, for the lines from the cursor on, what
  \<open>strip_timestamp\<close> leaves of each. For a line \<^verbatim>\<open>**[HH:MM:SS]** text\<close> whose text does
  not hold \<^verbatim>\<open>]** \<close> that is the text. For the two lines of the example and an
  interval of 2 the one call has the input \<^verbatim>\<open>hello world\<close> and the cursor becomes 2.
\<close>

lemma summary_check_input:
  assumes "interval \<le> int (length (transcript_text s) + length rq) - last_summary_idx s"
    and "0 \<le> last_summary_idx s"
  shows "snd (tick interval env rq s) =
       [join '' '' (map strip_timestamp
          (drop (nat (last_summary_idx s)) (transcript_text s @ map fst rq)))]
     \<and> last_summary_idx (fst (tick interval env rq s)) =
         int (length (transcript_text s) + length rq)
     \<and> (\<forall>pre said. \<not> contains '']** '' said \<longrightarrow>
           strip_timestamp (pre @ '']** '' @ said) = said)
     \<and> (\<forall>ts said. \<not> contains '']** '' said \<and> length ts = 8 \<longrightarrow>
           strip_timestamp (''**['' @ ts @ '']** '' @ said) = said
           \<and> without_timestamp_prefix (''**['' @ ts @ '']** '' @ said) = said)
     \<and> (\<forall>line. \<not> contains '']** '' line \<longrightarrow> strip_timestamp line = line)
     \<and> snd (tick 2 env hello_world (initial fs)) = [''hello world'']
     \<and> last_summary_idx (fst (tick 2 env hello_world (initial fs))) = 2
     \<and> snd (tick 2 env [] ((initial fs)\<lparr>transcript_text := map fst hello_world\<rparr>))
         = [''hello world'']
     \<and> last_summary_idx
         (fst (tick 2 env [] ((initial fs)\<lparr>transcript_text := map fst hello_world\<rparr>))) = 2"
proof -
  have a: "snd (tick interval env rq s) =
       [join '' '' (map strip_timestamp
          (drop (nat (last_summary_idx s)) (transcript_text s @ map fst rq)))]"
    using tick_fires(1) [OF assms(1), of env]
    unfolding clean_text_def slice_from_drop [OF assms(2)] .
  have b: "last_summary_idx (fst (tick interval env rq s)) =
         int (length (transcript_text s) + length rq)"
    using tick_fires(3) [OF assms(1), of env] .
  have c: "strip_timestamp (pre @ '']** '' @ said) = said"
    if "\<not> contains '']** '' said" for pre said
    using last_split_marker [OF that, of "[]" pre]
    by (simp only: strip_timestamp_def split_def)
  have d: "without_timestamp_prefix (''**['' @ ts @ '']** '' @ said) = said"
    if "length ts = 8" for ts said
    using that by (simp add: without_timestamp_prefix_def)
  have e: "snd (tick 2 env hello_world (initial fs)) = [''hello world'']"
    "last_summary_idx (fst (tick 2 env hello_world (initial fs))) = 2"
    "snd (tick 2 env [] ((initial fs)\<lparr>transcript_text := map fst hello_world\<rparr>))
         = [''hello world'']"
    "last_summary_idx
         (fst (tick 2 env [] ((initial fs)\<lparr>transcript_text := map fst hello_world\<rparr>))) = 2"
    by (simp_all add: tick_def summary_check_def Let_def initial_def hello_world_def
        slice_from_def strip_timestamp_def split_def)
  from a b c c [of _ "''**['' @ _"] d e strip_timestamp_plain show ?thesis
    by simp
qed

lemma summary_check_input_example:
  "(2 :: int) \<le> int (length (transcript_text (initial Map.empty :: int app)) + length hello_world)
      - last_summary_idx (initial Map.empty :: int app)
   \<and> 0 \<le> last_summary_idx (initial Map.empty :: int app)
   \<and> snd (tick 2 env_ok hello_world (initial Map.empty)) = [''hello world'']
   \<and> last_summary_idx (fst (tick 2 env_ok hello_world (initial Map.empty))) = 2
   \<and> \<not> contains '']** '' ''hello''
   \<and> strip_timestamp ''**[00:00:01]** hello'' = ''hello''"
proof -
  have h: "(2 :: int) \<le> int (length (transcript_text (initial Map.empty :: int app))
      + length hello_world) - last_summary_idx (initial Map.empty :: int app)"
    "0 \<le> last_summary_idx (initial Map.empty :: int app)"
    by (simp_all add: initial_def hello_world_def)
  have n: "\<not> contains '']** '' ''hello''"
    by simp
  from summary_check_input [OF h, of env_ok "Map.empty :: string \<rightharpoonup> int file_content"] h n
  show ?thesis
    by (simp add: strip_timestamp_def split_def initial_def hello_world_def)
qed

end
